theory Spec2Isabelle
  imports Main
begin

section \<open>Data model\<close>

text \<open>
  A news item is a Python dict from field names to values. The extraction schemas of
  \<^verbatim>\<open>models/mcnews.py\<close> type every field as \<^verbatim>\<open>str\<close> and \<^verbatim>\<open>seen_names\<close> is a
  \<^verbatim>\<open>Set[str]\<close>, so field values are strings here.
\<close>

type_synonym news = "string \<rightharpoonup> string"

text \<open>
  What \<^verbatim>\<open>json.loads\<close> can return, as far as \<^verbatim>\<open>fetch_and_process_page\<close> tells values
  apart: a dict, a list, or anything else (string, number, boolean, null).
  \<open>JDict e d\<close> is a dict whose \<^verbatim>\<open>"error"\<close> entry is truthy exactly when \<open>e\<close> holds
  (no such entry counts as falsy) and whose entries are \<open>d\<close>.
\<close>

datatype json = JDict bool news | JList "json list" | JOther

text \<open>
  \<^verbatim>\<open>result.extracted_content\<close>: falsy (\<^verbatim>\<open>None\<close> or the empty string), a text that
  \<^verbatim>\<open>json.loads\<close> rejects, or a text that it parses.
\<close>

datatype payload = NoContent | Malformed | Parsed json

record crawl_result =
  success :: bool
  cleaned_html :: string
  extracted_content :: payload

text \<open>
  What a coroutine of the program can end with instead of a value: an exception of the
  crawler, the \<^verbatim>\<open>AttributeError\<close>, \<^verbatim>\<open>KeyError\<close> and \<^verbatim>\<open>TypeError\<close> that the program's own
  code raises, and \<^verbatim>\<open>asyncio.CancelledError\<close>, with which a cancelled task ends.
\<close>

datatype error =
    CrawlerError string
  | AttributeError
  | KeyError string
  | TypeError
  | CancelledError

text \<open>
  \<^verbatim>\<open>isinstance(e, Exception)\<close>: \<^verbatim>\<open>asyncio.CancelledError\<close> derives from
  \<^verbatim>\<open>BaseException\<close> and not from \<^verbatim>\<open>Exception\<close>; the others are instances of
  \<^verbatim>\<open>Exception\<close>.
\<close>

fun is_Exception :: "error \<Rightarrow> bool" where
  "is_Exception (CrawlerError msg) = True"
| "is_Exception AttributeError = True"
| "is_Exception (KeyError key) = True"
| "is_Exception TypeError = True"
| "is_Exception CancelledError = False"

text \<open>One call of \<^verbatim>\<open>crawler.arun\<close> raises or returns a result.\<close>

datatype response = Raises error | Returns crawl_result

text \<open>
  What a source does to the outside world, in the order it does it: the probe and the
  extraction call for a page, the waits, the batches sent to the event stream, the
  snapshot file, the request to the search API.
\<close>

datatype event =
    Probe int
  | Extract int
  | Sleep nat
  | Publish "news list" string
  | Snapshot "news list" string
  | ApiRequest

text \<open>
  The state of one crawl session: how many calls the crawler has answered (the crawler
  is an oracle \<open>nat \<Rightarrow> response\<close>, asked in turn), the titles seen, and the events so far.
\<close>

record session =
  calls :: nat
  seen_names :: "string set"
  trace :: "event list"

definition init_session :: session where
  "init_session = \<lparr>calls = 0, seen_names = {}, trace = []\<rparr>"

text \<open>\<^verbatim>\<open>config.py\<close>\<close>

definition SOURCES :: "(string \<times> (string \<rightharpoonup> string)) list" where
  "SOURCES =
    [(''moneycontrol'',
        [''base_url'' \<mapsto> ''https://www.moneycontrol.com/city'',
         ''css_selector'' \<mapsto> ''[class='' @ [CHR 0x27] @ ''topictabpane'' @ [CHR 0x27] @ '']'',
         ''type'' \<mapsto> ''scraper'',
         ''model'' \<mapsto> ''mcnews'',
         ''gemini_key_env'' \<mapsto> ''GEMINI_API_KEY_1'']),
     (''thehindu'',
        [''base_url'' \<mapsto> ''https://www.thehindu.com/news/national'',
         ''css_selector'' \<mapsto> ''[class='' @ [CHR 0x22] @ ''story-card'' @ [CHR 0x22] @ '']'',
         ''type'' \<mapsto> ''scraper'',
         ''model'' \<mapsto> ''thehindu'',
         ''gemini_key_env'' \<mapsto> ''GEMINI_API_KEY_2'']),
     (''indianexpress'',
        [''base_url'' \<mapsto> ''https://indianexpress.com/section/india'',
         ''css_selector'' \<mapsto> ''[class='' @ [CHR 0x22] @ ''articles'' @ [CHR 0x22] @ '']'',
         ''type'' \<mapsto> ''scraper'',
         ''model'' \<mapsto> ''indianexpress'',
         ''gemini_key_env'' \<mapsto> ''GEMINI_API_KEY_3'']),
     (''newsdata'',
        [''api_url'' \<mapsto> ''https://newsdata.io/api/1/news'',
         ''type'' \<mapsto> ''api'',
         ''model'' \<mapsto> ''newsdata'',
         ''gemini_key_env'' \<mapsto> ''GEMINI_API_KEY_3''])]"

definition REQUIRED_KEYS :: "string list" where
  "REQUIRED_KEYS = [''title'', ''description'', ''url'', ''publishtime'', ''provider'']"

section \<open>Python helpers\<close>

text \<open>\<^verbatim>\<open>d.get(key, default)\<close>\<close>

definition dict_get :: "(string \<rightharpoonup> string) \<Rightarrow> string \<Rightarrow> string \<Rightarrow> string" where
  "dict_get d key dflt = (case d key of None \<Rightarrow> dflt | Some v \<Rightarrow> v)"

text \<open>Truth value of an optional string: \<^verbatim>\<open>None\<close> and \<^verbatim>\<open>''\<close> are falsy.\<close>

definition truthy :: "string option \<Rightarrow> bool" where
  "truthy v = (case v of None \<Rightarrow> False | Some s \<Rightarrow> s \<noteq> [])"

text \<open>\<^verbatim>\<open>sub in text\<close> on strings.\<close>

fun contains :: "string \<Rightarrow> string \<Rightarrow> bool" where
  "contains sub [] = (sub = [])"
| "contains sub (c # cs) = (take (length sub) (c # cs) = sub \<or> contains sub cs)"

section \<open>\<^verbatim>\<open>utils/data_utils.py\<close>\<close>

text \<open>
  Modelled from the spec: \<^verbatim>\<open>is_complete_news\<close> of \<^verbatim>\<open>utils/data_utils.py\<close>, which is not
  among the sources. The spec's required-field contract: "a record is accepted only if it
  carries non-empty values for title, description, url, publishtime, provider", the
  fields being the list of required keys it is called with.
\<close>

definition is_complete_news :: "news \<Rightarrow> string list \<Rightarrow> bool" where
  "is_complete_news news required_keys = list_all (\<lambda>key. truthy (news key)) required_keys"

text \<open>
  Modelled from the spec: the trimming of the spec's deduplication policy ("post-trim"),
  as the string without the white space at its two ends, white space being blank, tab,
  line feed, vertical tab, form feed and carriage return.
\<close>

definition whitespace :: "char \<Rightarrow> bool" where
  "whitespace c = (c \<in> set [CHR '' '', CHR 0x09, CHR 0x0A, CHR 0x0B, CHR 0x0C, CHR 0x0D])"

definition trim :: "string \<Rightarrow> string" where
  "trim s = rev (dropWhile whitespace (rev (dropWhile whitespace s)))"

text \<open>
  Modelled from the spec: \<^verbatim>\<open>is_duplicate_news\<close> of \<^verbatim>\<open>utils/data_utils.py\<close>, which is
  not among the sources. The spec's deduplication policy: "a record is rejected as
  duplicate if its title exactly matches (byte-for-byte, post-trim) a title already in
  seenTitles". The caller passes the title as extracted and adds that same string to the
  set, so both the title and the titles of the set are trimmed, and then compared as
  they are; no case folding, no fuzzy match.
\<close>

definition is_duplicate_news :: "string \<Rightarrow> string set \<Rightarrow> bool" where
  "is_duplicate_news news_title seen = (trim news_title \<in> trim ` seen)"

section \<open>\<^verbatim>\<open>utils/scraper_utils.py\<close>\<close>

text \<open>
  \<^verbatim>\<open>check_no_results\<close>: one crawler call for the page; the marker counts only in a
  successful result.
\<close>

definition check_no_results ::
  "(nat \<Rightarrow> response) \<Rightarrow> int \<Rightarrow> session \<Rightarrow> (error + bool) \<times> session" where
  "check_no_results crawler page_number st =
     (let st1 = st\<lparr>calls := Suc (calls st), trace := trace st @ [Probe page_number]\<rparr> in
      case crawler (calls st) of
        Raises e \<Rightarrow> (Inl e, st1)
      | Returns result \<Rightarrow>
          (Inr (success result \<and> contains ''No Results Found'' (cleaned_html result)), st1))"

text \<open>
  The \<^verbatim>\<open>try\<close> block of \<^verbatim>\<open>fetch_and_process_page\<close>: the list of items to process, or
  \<open>None\<close> where the function returns \<^verbatim>\<open>[], False\<close>.
\<close>

fun parse_extracted :: "payload \<Rightarrow> json list option" where
  "parse_extracted NoContent = None"
| "parse_extracted Malformed = None"
| "parse_extracted (Parsed (JDict err d)) = (if err then None else Some [JDict err d])"
| "parse_extracted (Parsed (JList items)) = (if items = [] then None else Some items)"
| "parse_extracted (Parsed JOther) = None"

text \<open>
  The loop over the extracted items. The two helpers of \<^verbatim>\<open>utils/data_utils.py\<close> are
  arguments, so that what is proved of the loop for all helpers does not depend on their
  models above. \<^verbatim>\<open>seen_names.add\<close> comes before \<^verbatim>\<open>complete_news.append\<close>: the rest of
  the batch is processed with the title already in the set.
\<close>

fun process_news ::
  "(news \<Rightarrow> string list \<Rightarrow> bool) \<Rightarrow> (string \<Rightarrow> string set \<Rightarrow> bool) \<Rightarrow> string list \<Rightarrow>
   json list \<Rightarrow> string set \<Rightarrow> news list \<times> string set" where
  "process_news is_complete is_duplicate required_keys [] seen = ([], seen)"
| "process_news is_complete is_duplicate required_keys (JDict err d # rest) seen =
     (if err then process_news is_complete is_duplicate required_keys rest seen
      else
        let news = d(''error'' := None) in
        if \<not> is_complete news required_keys
        then process_news is_complete is_duplicate required_keys rest seen
        else
          let news_title = dict_get news ''title'' [] in
          if news_title = [] then process_news is_complete is_duplicate required_keys rest seen
          else if is_duplicate news_title seen
          then process_news is_complete is_duplicate required_keys rest seen
          else
            (case process_news is_complete is_duplicate required_keys rest
                    (insert news_title seen) of
               (complete_news, seen') \<Rightarrow> (news # complete_news, seen')))"
| "process_news is_complete is_duplicate required_keys (_ # rest) seen =
     process_news is_complete is_duplicate required_keys rest seen"

text \<open>
  \<^verbatim>\<open>fetch_and_process_page\<close>. The debug output reads \<^verbatim>\<open>extracted_data[0].keys()\<close>
  outside the \<^verbatim>\<open>try\<close> block: a first item that is not a dict raises.
\<close>

definition fetch_and_process_page ::
  "(news \<Rightarrow> string list \<Rightarrow> bool) \<Rightarrow> (string \<Rightarrow> string set \<Rightarrow> bool) \<Rightarrow> (nat \<Rightarrow> response) \<Rightarrow>
   int \<Rightarrow> string list \<Rightarrow> session \<Rightarrow> (error + news list \<times> bool) \<times> session" where
  "fetch_and_process_page is_complete is_duplicate crawler page_number required_keys st =
     (case check_no_results crawler page_number st of
        (Inl e, st1) \<Rightarrow> (Inl e, st1)
      | (Inr no_results, st1) \<Rightarrow>
          if no_results then (Inr ([], True), st1)
          else
            let st2 = st1\<lparr>calls := Suc (calls st1),
                          trace := trace st1 @ [Extract page_number]\<rparr> in
            (case crawler (calls st1) of
               Raises e \<Rightarrow> (Inl e, st2)
             | Returns result \<Rightarrow>
                 if \<not> (success result \<and> extracted_content result \<noteq> NoContent)
                 then (Inr ([], False), st2)
                 else
                   (case parse_extracted (extracted_content result) of
                      None \<Rightarrow> (Inr ([], False), st2)
                    | Some extracted_data \<Rightarrow>
                        (case extracted_data of
                           JDict _ _ # _ \<Rightarrow>
                             (case process_news is_complete is_duplicate required_keys
                                     extracted_data (seen_names st2) of
                                (complete_news, seen') \<Rightarrow>
                                  if complete_news = []
                                  then (Inr ([], False), st2\<lparr>seen_names := seen'\<rparr>)
                                  else (Inr (complete_news, False), st2\<lparr>seen_names := seen'\<rparr>))
                         | _ \<Rightarrow> (Inl AttributeError, st2)))))"

section \<open>\<^verbatim>\<open>main.py\<close>: one paginated source\<close>

text \<open>
  The loop \<^verbatim>\<open>for attempt in range(3)\<close> of \<^verbatim>\<open>crawl_scraper_source\<close>, by the number of
  attempts left. It leaves with the first result that has news or the no-results flag;
  after every other result it waits five seconds. When no attempt is left the variables
  hold the last result, which is \<^verbatim>\<open>[], False\<close>.
\<close>

fun fetch_with_retries ::
  "(news \<Rightarrow> string list \<Rightarrow> bool) \<Rightarrow> (string \<Rightarrow> string set \<Rightarrow> bool) \<Rightarrow> (nat \<Rightarrow> response) \<Rightarrow>
   int \<Rightarrow> nat \<Rightarrow> session \<Rightarrow> (error + news list \<times> bool) \<times> session" where
  "fetch_with_retries is_complete is_duplicate crawler page_number 0 st =
     (Inr ([], False), st)"
| "fetch_with_retries is_complete is_duplicate crawler page_number (Suc n) st =
     (case fetch_and_process_page is_complete is_duplicate crawler page_number
             REQUIRED_KEYS st of
        (Inl e, st1) \<Rightarrow> (Inl e, st1)
      | (Inr (news, no_results_found), st1) \<Rightarrow>
          if news \<noteq> [] \<or> no_results_found then (Inr (news, no_results_found), st1)
          else fetch_with_retries is_complete is_duplicate crawler page_number n
                 (st1\<lparr>trace := trace st1 @ [Sleep 5]\<rparr>))"

text \<open>
  The loop \<^verbatim>\<open>while True\<close> of \<^verbatim>\<open>crawl_scraper_source\<close>. It ends because the page number
  grows and the loop leaves once a page above 20 has been sent.
\<close>

function crawl_pages ::
  "(news \<Rightarrow> string list \<Rightarrow> bool) \<Rightarrow> (string \<Rightarrow> string set \<Rightarrow> bool) \<Rightarrow> (nat \<Rightarrow> response) \<Rightarrow>
   string \<Rightarrow> int \<Rightarrow> news list \<Rightarrow> session \<Rightarrow> (error + news list) \<times> session" where
  "crawl_pages is_complete is_duplicate crawler kafka_topic page_number all_news st =
     (case fetch_with_retries is_complete is_duplicate crawler page_number 3 st of
        (Inl e, st1) \<Rightarrow> (Inl e, st1)
      | (Inr (news, no_results_found), st1) \<Rightarrow>
          if no_results_found then (Inr all_news, st1)
          else if news = [] then (Inr all_news, st1)
          else
            let st2 = st1\<lparr>trace := trace st1 @ [Publish news kafka_topic]\<rparr> in
            if page_number > 20 then (Inr (all_news @ news), st2)
            else crawl_pages is_complete is_duplicate crawler kafka_topic (page_number + 1)
                   (all_news @ news) (st2\<lparr>trace := trace st2 @ [Sleep 2]\<rparr>))"
  by pat_completeness auto
termination
  by (relation "measure (\<lambda>(ic, idup, crawler, topic, page_number, all_news, st).
                   nat (21 - page_number))") auto

declare crawl_pages.simps [simp del]

text \<open>\<^verbatim>\<open>os.getenv('KAFKA_TOPIC', 'news-events')\<close>\<close>

definition kafka_topic_of :: "(string \<rightharpoonup> string) \<Rightarrow> string" where
  "kafka_topic_of getenv = dict_get getenv ''KAFKA_TOPIC'' ''news-events''"

text \<open>
  \<^verbatim>\<open>crawl_scraper_source\<close>. The dict lookups of the source raise \<^verbatim>\<open>KeyError\<close> on a
  missing key; those of \<^verbatim>\<open>base_url\<close> and \<^verbatim>\<open>css_selector\<close> happen at the first fetch, before
  any call of the crawler. The result is what the coroutine returns or raises, with the
  final session.
\<close>

definition crawl_scraper_source ::
  "(news \<Rightarrow> string list \<Rightarrow> bool) \<Rightarrow> (string \<Rightarrow> string set \<Rightarrow> bool) \<Rightarrow> (string \<rightharpoonup> string) \<Rightarrow>
   (nat \<Rightarrow> response) \<Rightarrow> string \<Rightarrow> (string \<rightharpoonup> string) \<Rightarrow> (error + news list) \<times> session" where
  "crawl_scraper_source is_complete is_duplicate getenv crawler source_name source_config =
     (case source_config ''gemini_key_env'' of
        None \<Rightarrow> (Inl (KeyError ''gemini_key_env''), init_session)
      | Some key_env \<Rightarrow>
          if \<not> truthy (getenv key_env) then (Inr [], init_session)
          else if source_config ''model'' = None
          then (Inl (KeyError ''model''), init_session)
          else if source_config ''base_url'' = None
          then (Inl (KeyError ''base_url''), init_session)
          else if source_config ''css_selector'' = None
          then (Inl (KeyError ''css_selector''), init_session)
          else
            (case crawl_pages is_complete is_duplicate crawler (kafka_topic_of getenv) 1 []
                    init_session of
               (Inl e, st) \<Rightarrow> (Inl e, st)
             | (Inr all_news, st) \<Rightarrow>
                 if all_news \<noteq> []
                 then (Inr all_news,
                       st\<lparr>trace := trace st @ [Snapshot all_news (source_name @ ''_news.csv'')]\<rparr>)
                 else (Inr all_news, st)))"

section \<open>\<^verbatim>\<open>utils/api_scraper.py\<close> and the one-shot source\<close>

text \<open>
  The answer of the search API to one request: the request fails (any exception), or a
  JSON body arrives with its \<^verbatim>\<open>status\<close> and \<^verbatim>\<open>results\<close> entries, either of which may
  be missing.
\<close>

datatype api_reply = RequestFailed | JsonBody "string option" "news list option"

fun fetch_newsdata_api :: "api_reply \<Rightarrow> news list" where
  "fetch_newsdata_api RequestFailed = []"
| "fetch_newsdata_api (JsonBody status results) =
     (if status = Some ''success'' then (case results of None \<Rightarrow> [] | Some rs \<Rightarrow> rs) else [])"

definition format_item :: "news \<Rightarrow> news" where
  "format_item item =
     [''title'' \<mapsto> dict_get item ''title'' [],
      ''description'' \<mapsto> dict_get item ''description'' [],
      ''url'' \<mapsto> dict_get item ''link'' [],
      ''publishtime'' \<mapsto> dict_get item ''pubDate'' [],
      ''provider'' \<mapsto> dict_get item ''source_id'' ''newsdata'']"

fun format_items :: "news list \<Rightarrow> news list" where
  "format_items [] = []"
| "format_items (item # rest) = format_item item # format_items rest"

text \<open>
  \<^verbatim>\<open>process_newsdata_with_gemini\<close>: the extraction strategy it builds is never used;
  the loop appends one formatted record per item.
\<close>

definition process_newsdata_with_gemini :: "news list \<Rightarrow> string \<Rightarrow> news list" where
  "process_newsdata_with_gemini raw_results gemini_key =
     (if raw_results = [] then [] else format_items raw_results)"

text \<open>\<^verbatim>\<open>crawl_api_source\<close>: the value returned or raised, and the events.\<close>

definition crawl_api_source ::
  "(string \<rightharpoonup> string) \<Rightarrow> (string \<Rightarrow> api_reply) \<Rightarrow> string \<Rightarrow> (string \<rightharpoonup> string) \<Rightarrow>
   (error + news list) \<times> event list" where
  "crawl_api_source getenv newsdata source_name source_config =
     (case source_config ''gemini_key_env'' of
        None \<Rightarrow> (Inl (KeyError ''gemini_key_env''), [])
      | Some key_env \<Rightarrow>
          (case (getenv ''NEWSDATA_API_KEY'', getenv key_env) of
             (Some api_key, Some gemini_key) \<Rightarrow>
               if api_key = [] then (Inr [], [])
               else if gemini_key = [] then (Inr [], [])
               else
                 let raw_results = fetch_newsdata_api (newsdata api_key);
                     news = process_newsdata_with_gemini raw_results gemini_key
                 in if news \<noteq> []
                    then (Inr news,
                          [ApiRequest, Publish news (kafka_topic_of getenv),
                           Snapshot news (source_name @ ''_news.csv'')])
                    else (Inr news, [ApiRequest])
           | _ \<Rightarrow> (Inr [], [])))"

section \<open>\<^verbatim>\<open>main.py\<close>: all sources\<close>

datatype task_kind = ScraperTask | ApiTask

text \<open>
  The loop that creates the tasks: a source of unknown type is skipped, a source
  without a \<^verbatim>\<open>type\<close> entry raises \<^verbatim>\<open>KeyError\<close> in \<^verbatim>\<open>main\<close> itself.
\<close>

fun create_tasks ::
  "(string \<times> (string \<rightharpoonup> string)) list \<Rightarrow>
   error + (string \<times> task_kind \<times> (string \<rightharpoonup> string)) list" where
  "create_tasks [] = Inr []"
| "create_tasks ((source_name, source_config) # rest) =
     (case source_config ''type'' of
        None \<Rightarrow> Inl (KeyError ''type'')
      | Some ty \<Rightarrow>
          (case create_tasks rest of
             Inl e \<Rightarrow> Inl e
           | Inr tasks \<Rightarrow>
               if ty = ''scraper'' then Inr ((source_name, ScraperTask, source_config) # tasks)
               else if ty = ''api'' then Inr ((source_name, ApiTask, source_config) # tasks)
               else Inr tasks))"

text \<open>
  The world the sources run in: the process environment, one crawler per source (each
  source opens its own), and the search API.
\<close>

record world =
  getenv :: "string \<rightharpoonup> string"
  crawler_of :: "string \<Rightarrow> nat \<Rightarrow> response"
  newsdata :: "string \<Rightarrow> api_reply"

text \<open>
  One unit of work. Sessions share no state, so each unit is a function of the world:
  the value it returns or raises, and its events.
\<close>

fun run_task ::
  "(news \<Rightarrow> string list \<Rightarrow> bool) \<Rightarrow> (string \<Rightarrow> string set \<Rightarrow> bool) \<Rightarrow> world \<Rightarrow>
   string \<times> task_kind \<times> (string \<rightharpoonup> string) \<Rightarrow> (error + news list) \<times> event list" where
  "run_task is_complete is_duplicate w (source_name, ScraperTask, source_config) =
     (case crawl_scraper_source is_complete is_duplicate (getenv w) (crawler_of w source_name)
             source_name source_config of
        (r, st) \<Rightarrow> (r, trace st))"
| "run_task is_complete is_duplicate w (source_name, ApiTask, source_config) =
     crawl_api_source (getenv w) (newsdata w) source_name source_config"

text \<open>What \<^verbatim>\<open>main\<close> prints for a source: its error, or how many news it collected.\<close>

datatype report = Failed string error | Completed string nat

text \<open>
  The loop over \<^verbatim>\<open>zip(tasks, results)\<close>: the reports it prints, and the total it ends
  with or the exception it raises. A result counts as the failure of its source only if
  \<^verbatim>\<open>isinstance(result, Exception)\<close>; any other result goes to \<^verbatim>\<open>len(result)\<close>, which
  raises \<^verbatim>\<open>TypeError\<close> for a raised value that is no \<^verbatim>\<open>Exception\<close>, before the report of
  that source is printed.
\<close>

fun process_results ::
  "(string \<times> (error + news list)) list \<Rightarrow> nat \<Rightarrow> report list \<times> (error + nat)" where
  "process_results [] total_news = ([], Inr total_news)"
| "process_results ((source_name, Inl e) # rest) total_news =
     (if is_Exception e
      then (case process_results rest total_news of
              (reports, outcome) \<Rightarrow> (Failed source_name e # reports, outcome))
      else ([], Inl TypeError))"
| "process_results ((source_name, Inr result) # rest) total_news =
     (case process_results rest (total_news + length result) of
        (reports, outcome) \<Rightarrow>
          (Completed source_name (length result) # reports, outcome))"

text \<open>
  \<^verbatim>\<open>asyncio.gather\<close> with \<^verbatim>\<open>return_exceptions=True\<close> gives one result per task, in
  the order of the tasks, what a task raised being a result like any other (for a
  cancelled task, the \<^verbatim>\<open>CancelledError\<close>).
\<close>

definition gather ::
  "(news \<Rightarrow> string list \<Rightarrow> bool) \<Rightarrow> (string \<Rightarrow> string set \<Rightarrow> bool) \<Rightarrow> world \<Rightarrow>
   (string \<times> task_kind \<times> (string \<rightharpoonup> string)) list \<Rightarrow> ((error + news list) \<times> event list) list" where
  "gather is_complete is_duplicate w tasks = map (run_task is_complete is_duplicate w) tasks"

text \<open>
  \<^verbatim>\<open>main\<close>: the reports it prints for the sources, and the total it prints at the end or
  the exception it raises.
\<close>

definition main ::
  "(news \<Rightarrow> string list \<Rightarrow> bool) \<Rightarrow> (string \<Rightarrow> string set \<Rightarrow> bool) \<Rightarrow> world \<Rightarrow>
   (string \<times> (string \<rightharpoonup> string)) list \<Rightarrow> report list \<times> (error + nat)" where
  "main is_complete is_duplicate w sources =
     (case create_tasks sources of
        Inl e \<Rightarrow> ([], Inl e)
      | Inr tasks \<Rightarrow>
          let results = gather is_complete is_duplicate w tasks
          in process_results (zip (map fst tasks) (map fst results)) 0)"

section \<open>Notions used in the statements and proofs\<close>

text \<open>The title the deduplication looks at: \<^verbatim>\<open>news.get("title", "")\<close>.\<close>

definition title_of :: "news \<Rightarrow> string" where
  "title_of n = dict_get n ''title'' []"

text \<open>The record an extracted item is appended as: the dict after \<^verbatim>\<open>pop("error")\<close>.\<close>

fun cleaned :: "json \<Rightarrow> news" where
  "cleaned (JDict err d) = d(''error'' := None)"
| "cleaned _ = Map.empty"

text \<open>
  The item passes every check of the loop body, given the titles seen before it: it is
  a dict with no error flag, it is complete, its title is not empty and not a duplicate.
\<close>

definition accepted ::
  "(news \<Rightarrow> string list \<Rightarrow> bool) \<Rightarrow> (string \<Rightarrow> string set \<Rightarrow> bool) \<Rightarrow> string list \<Rightarrow>
   string set \<Rightarrow> json \<Rightarrow> bool" where
  "accepted is_complete is_duplicate required_keys seen item =
     (case item of
        JDict err d \<Rightarrow>
          \<not> err \<and> is_complete (d(''error'' := None)) required_keys \<and>
          dict_get d ''title'' [] \<noteq> [] \<and> \<not> is_duplicate (dict_get d ''title'' []) seen
      | _ \<Rightarrow> False)"

text \<open>The session after the probe of a page, and after probe and extraction call.\<close>

definition probed :: "int \<Rightarrow> session \<Rightarrow> session" where
  "probed p st = st\<lparr>calls := Suc (calls st), trace := trace st @ [Probe p]\<rparr>"

definition extracted :: "int \<Rightarrow> session \<Rightarrow> session" where
  "extracted p st =
     st\<lparr>calls := Suc (Suc (calls st)), trace := trace st @ [Probe p, Extract p]\<rparr>"

text \<open>What \<^verbatim>\<open>fetch_and_process_page\<close> does once the probe has found no marker.\<close>

definition after_probe ::
  "(news \<Rightarrow> string list \<Rightarrow> bool) \<Rightarrow> (string \<Rightarrow> string set \<Rightarrow> bool) \<Rightarrow> (nat \<Rightarrow> response) \<Rightarrow>
   int \<Rightarrow> string list \<Rightarrow> session \<Rightarrow> (error + news list \<times> bool) \<times> session" where
  "after_probe ic idup crawler p rk st =
     (case crawler (Suc (calls st)) of
        Raises e \<Rightarrow> (Inl e, extracted p st)
      | Returns result \<Rightarrow>
          (case (if success result then parse_extracted (extracted_content result) else None) of
             None \<Rightarrow> (Inr ([], False), extracted p st)
           | Some [] \<Rightarrow> (Inl AttributeError, extracted p st)
           | Some (JDict err d # rest) \<Rightarrow>
               (Inr (fst (process_news ic idup rk (JDict err d # rest) (seen_names st)), False),
                (extracted p st)\<lparr>seen_names :=
                   snd (process_news ic idup rk (JDict err d # rest) (seen_names st))\<rparr>)
           | Some (_ # rest) \<Rightarrow> (Inl AttributeError, extracted p st)))"

text \<open>The session after a wait, and after a batch has been sent to the event stream.\<close>

definition slept :: "nat \<Rightarrow> session \<Rightarrow> session" where
  "slept n st = st\<lparr>trace := trace st @ [Sleep n]\<rparr>"

definition published :: "string \<Rightarrow> news list \<Rightarrow> session \<Rightarrow> session" where
  "published topic news st = st\<lparr>trace := trace st @ [Publish news topic]\<rparr>"

text \<open>
  The session after an attempt that gave neither news nor the no-results flag, and the
  wait that follows it.
\<close>

definition retried :: "int \<Rightarrow> session \<Rightarrow> session" where
  "retried p st = slept 5 (extracted p st)"

text \<open>The records an event hands to the sink (event stream or snapshot), and those of a trace.\<close>

fun batch_of :: "event \<Rightarrow> news list" where
  "batch_of (Publish batch topic) = batch"
| "batch_of (Snapshot batch file) = batch"
| "batch_of _ = []"

definition sink_records :: "event list \<Rightarrow> news list" where
  "sink_records tr = concat (map batch_of tr)"

text \<open>
  The records a trace sends to the event stream, and those it writes to the snapshot file.
\<close>

fun stream_batch :: "event \<Rightarrow> news list" where
  "stream_batch (Publish batch topic) = batch"
| "stream_batch _ = []"

fun snapshot_batch :: "event \<Rightarrow> news list" where
  "snapshot_batch (Snapshot batch file) = batch"
| "snapshot_batch _ = []"

definition stream_records :: "event list \<Rightarrow> news list" where
  "stream_records tr = concat (map stream_batch tr)"

definition snapshot_records :: "event list \<Rightarrow> news list" where
  "snapshot_records tr = concat (map snapshot_batch tr)"

text \<open>The title of a record as \<open>is_duplicate_news\<close> compares it: trimmed.\<close>

definition trimmed_title :: "news \<Rightarrow> string" where
  "trimmed_title n = trim (title_of n)"

text \<open>How many of the records carry the title \<open>T\<close>, titles compared trimmed.\<close>

definition forwarded :: "string \<Rightarrow> news list \<Rightarrow> nat" where
  "forwarded T records = length (filter (\<lambda>n. trimmed_title n = trim T) records)"

text \<open>
  The source has what \<^verbatim>\<open>crawl_scraper_source\<close> needs to start its session: its credential
  and the entries of its configuration.
\<close>

definition configured :: "(string \<rightharpoonup> string) \<Rightarrow> (string \<rightharpoonup> string) \<Rightarrow> bool" where
  "configured env source_config =
     (case source_config ''gemini_key_env'' of
        None \<Rightarrow> False
      | Some key_env \<Rightarrow>
          truthy (env key_env) \<and> source_config ''model'' \<noteq> None \<and>
          source_config ''base_url'' \<noteq> None \<and> source_config ''css_selector'' \<noteq> None)"

text \<open>
  The item passes the checks of the loop body that do not depend on the titles seen: it is
  a dict with no error flag, it is complete, and its title is not empty.
\<close>

definition valid_item :: "(news \<Rightarrow> string list \<Rightarrow> bool) \<Rightarrow> string list \<Rightarrow> json \<Rightarrow> bool" where
  "valid_item is_complete required_keys item =
     (case item of
        JDict err d \<Rightarrow>
          \<not> err \<and> is_complete (d(''error'' := None)) required_keys \<and>
          dict_get d ''title'' [] \<noteq> []
      | _ \<Rightarrow> False)"

text \<open>
  The required-field contract as the spec words it: all five fields are present and not
  empty.
\<close>

definition required_fields_nonempty :: "news \<Rightarrow> bool" where
  "required_fields_nonempty n = list_all (\<lambda>key. truthy (n key)) REQUIRED_KEYS"

text \<open>
  The items with which a fetch made in state \<open>st\<close> enters the loop over the items, if it
  gets there.
\<close>

definition batch_at :: "(nat \<Rightarrow> response) \<Rightarrow> session \<Rightarrow> json list option" where
  "batch_at crawler st =
     (case crawler (calls st) of
        Raises e \<Rightarrow> None
      | Returns probe \<Rightarrow>
          if success probe \<and> contains ''No Results Found'' (cleaned_html probe) then None
          else
            (case crawler (Suc (calls st)) of
               Raises e \<Rightarrow> None
             | Returns result \<Rightarrow>
                 if \<not> success result then None
                 else
                   (case parse_extracted (extracted_content result) of
                      Some (JDict err d # rest) \<Rightarrow> Some (JDict err d # rest)
                    | _ \<Rightarrow> None)))"

text \<open>The pagination loop entered in the middle of a page, with \<open>n\<close> attempts left for it.\<close>

definition crawl_from ::
  "(news \<Rightarrow> string list \<Rightarrow> bool) \<Rightarrow> (string \<Rightarrow> string set \<Rightarrow> bool) \<Rightarrow> (nat \<Rightarrow> response) \<Rightarrow>
   string \<Rightarrow> int \<Rightarrow> nat \<Rightarrow> news list \<Rightarrow> session \<Rightarrow> (error + news list) \<times> session" where
  "crawl_from ic idup crawler topic p n all_news st =
     (case fetch_with_retries ic idup crawler p n st of
        (Inl e, st1) \<Rightarrow> (Inl e, st1)
      | (Inr (news, no_results_found), st1) \<Rightarrow>
          if no_results_found \<or> news = [] then (Inr all_news, st1)
          else if p > 20 then (Inr (all_news @ news), published topic news st1)
          else crawl_pages ic idup crawler topic (p + 1) (all_news @ news)
                 (slept 2 (published topic news st1)))"

text \<open>
  The states in which a session fetches: the page, the attempts left for it, the records
  collected so far and the session state. A session starts at page 1; after an attempt
  without news or flag it fetches again if attempts are left; after a batch below the cap
  it goes to the next page.
\<close>

inductive fetch_state ::
  "(news \<Rightarrow> string list \<Rightarrow> bool) \<Rightarrow> (string \<Rightarrow> string set \<Rightarrow> bool) \<Rightarrow> (nat \<Rightarrow> response) \<Rightarrow>
   string \<Rightarrow> int \<Rightarrow> nat \<Rightarrow> news list \<Rightarrow> session \<Rightarrow> bool"
  for ic idup crawler topic where
    first_fetch: "fetch_state ic idup crawler topic 1 3 [] init_session"
  | next_attempt:
      "fetch_state ic idup crawler topic p (Suc (Suc n)) all_news st \<Longrightarrow>
       fst (fetch_and_process_page ic idup crawler p REQUIRED_KEYS st) = Inr ([], False) \<Longrightarrow>
       fetch_state ic idup crawler topic p (Suc n) all_news (retried p st)"
  | next_page:
      "fetch_state ic idup crawler topic p (Suc n) all_news st \<Longrightarrow>
       fetch_and_process_page ic idup crawler p REQUIRED_KEYS st = (Inr (news, False), st1) \<Longrightarrow>
       news \<noteq> [] \<Longrightarrow> \<not> p > 20 \<Longrightarrow>
       fetch_state ic idup crawler topic (p + 1) 3 (all_news @ news)
         (slept 2 (published topic news st1))"

text \<open>
  The raw records of a session: the items of the batches with which its fetches enter the
  loop over the items.
\<close>

inductive raw_record ::
  "(news \<Rightarrow> string list \<Rightarrow> bool) \<Rightarrow> (string \<Rightarrow> string set \<Rightarrow> bool) \<Rightarrow> (nat \<Rightarrow> response) \<Rightarrow>
   string \<Rightarrow> json \<Rightarrow> bool"
  for ic idup crawler topic where
    fetched:
      "fetch_state ic idup crawler topic p (Suc n) all_news st \<Longrightarrow>
       batch_at crawler st = Some items \<Longrightarrow> item \<in> set items \<Longrightarrow>
       raw_record ic idup crawler topic item"

section \<open>Concrete inputs\<close>

text \<open>A check of key presence only, as one possible \<^verbatim>\<open>is_complete_news\<close>.\<close>

definition has_all_keys :: "news \<Rightarrow> string list \<Rightarrow> bool" where
  "has_all_keys n required_keys = list_all (\<lambda>key. n key \<noteq> None) required_keys"

text \<open>
  A world with both credentials set, in which every crawler call raises and the search
  API answers with one item.
\<close>

definition demo_world :: world where
  "demo_world =
     \<lparr>getenv = [''K1'' \<mapsto> ''secret'', ''NEWSDATA_API_KEY'' \<mapsto> ''secret''],
      crawler_of = (\<lambda>source_name n. Raises (CrawlerError ''browser closed'')),
      newsdata = (\<lambda>api_key. JsonBody (Some ''success'') (Some [[''title'' \<mapsto> ''A'']]))\<rparr>"

definition site_config :: "string \<rightharpoonup> string" where
  "site_config =
     [''base_url'' \<mapsto> ''http://site'', ''css_selector'' \<mapsto> ''div'', ''type'' \<mapsto> ''scraper'',
      ''model'' \<mapsto> ''mcnews'', ''gemini_key_env'' \<mapsto> ''K1'']"

definition feed_config :: "string \<rightharpoonup> string" where
  "feed_config = [''type'' \<mapsto> ''api'', ''model'' \<mapsto> ''newsdata'', ''gemini_key_env'' \<mapsto> ''K1'']"

text \<open>A world without any credential.\<close>

definition bare_world :: world where
  "bare_world =
     \<lparr>getenv = Map.empty,
      crawler_of = (\<lambda>source_name n. Raises (CrawlerError ''browser closed'')),
      newsdata = (\<lambda>api_key. RequestFailed)\<rparr>"

text \<open>
  A world in which the one-shot source \<open>keyed_feed_config\<close> has its two credentials and
  the paginated source \<open>site_config\<close> has none.
\<close>

definition keyed_world :: world where
  "keyed_world =
     \<lparr>getenv = [''K2'' \<mapsto> ''secret'', ''NEWSDATA_API_KEY'' \<mapsto> ''secret''],
      crawler_of = (\<lambda>source_name n. Raises (CrawlerError ''browser closed'')),
      newsdata = (\<lambda>api_key. JsonBody (Some ''success'') (Some [[''title'' \<mapsto> ''A'']]))\<rparr>"

definition keyed_feed_config :: "string \<rightharpoonup> string" where
  "keyed_feed_config =
     [''type'' \<mapsto> ''api'', ''model'' \<mapsto> ''newsdata'', ''gemini_key_env'' \<mapsto> ''K2'']"

text \<open>
  The world \<open>demo_world\<close> with the task of every paginated source cancelled at its
  first crawler call.
\<close>

definition cancelled_world :: world where
  "cancelled_world = demo_world\<lparr>crawler_of := (\<lambda>source_name n. Raises CancelledError)\<rparr>"

text \<open>A crawler whose every call fails.\<close>

definition failing_crawler :: "nat \<Rightarrow> response" where
  "failing_crawler n =
     Returns \<lparr>success = False, cleaned_html = [], extracted_content = NoContent\<rparr>"

text \<open>A crawler whose first two calls fail and whose third shows the no-results marker.\<close>

definition ending_crawler :: "nat \<Rightarrow> response" where
  "ending_crawler n =
     (if n < 2
      then Returns \<lparr>success = False, cleaned_html = [], extracted_content = NoContent\<rparr>
      else Returns \<lparr>success = True, cleaned_html = ''<p>No Results Found</p>'',
                    extracted_content = NoContent\<rparr>)"

text \<open>
  A crawler whose probes find no marker and whose extraction calls return one item, with
  the error flag set.
\<close>

definition rejecting_crawler :: "nat \<Rightarrow> response" where
  "rejecting_crawler n =
     (if even n
      then Returns \<lparr>success = True, cleaned_html = ''<html>'', extracted_content = NoContent\<rparr>
      else Returns \<lparr>success = True, cleaned_html = [],
                    extracted_content = Parsed (JList [JDict True [''title'' \<mapsto> ''T'']])\<rparr>)"

text \<open>
  A source that never runs dry: the probe of every page finds no marker, and the
  extraction call returns one complete article with a title no page before had.
\<close>

definition article :: "nat \<Rightarrow> news" where
  "article k =
     [''title'' \<mapsto> replicate (Suc k) CHR ''a'', ''description'' \<mapsto> ''d'', ''url'' \<mapsto> ''u'',
      ''publishtime'' \<mapsto> ''p'', ''provider'' \<mapsto> ''x'']"

definition fresh_crawler :: "nat \<Rightarrow> response" where
  "fresh_crawler n =
     (if even n
      then Returns \<lparr>success = True, cleaned_html = [], extracted_content = NoContent\<rparr>
      else Returns \<lparr>success = True, cleaned_html = [],
                    extracted_content = Parsed (JList [JDict False (article (n div 2))])\<rparr>)"

text \<open>The events of a page of that source: probe, extraction call, one article sent.\<close>

definition page_events :: "string \<Rightarrow> int \<Rightarrow> event list" where
  "page_events topic q = [Probe q, Extract q, Publish [article (nat (q - 1))] topic]"

text \<open>
  The scenario of the spec: page 1 returns two valid records and a repetition of the
  first, page 2 shows the no-results marker.
\<close>

definition scenario_crawler :: "nat \<Rightarrow> response" where
  "scenario_crawler n =
     (if n = 0
      then Returns \<lparr>success = True, cleaned_html = [], extracted_content = NoContent\<rparr>
      else if n = 1
      then Returns \<lparr>success = True, cleaned_html = [],
             extracted_content = Parsed (JList [JDict False (article 0), JDict False (article (Suc 0)),
                                                 JDict False (article 0)])\<rparr>
      else Returns \<lparr>success = True, cleaned_html = ''No Results Found'',
             extracted_content = NoContent\<rparr>)"

text \<open>
  A source whose first page returns an article with blanks around its title, the same
  article with the title as it is, and a second article; its second page shows the
  no-results marker.
\<close>

definition padded :: "news \<Rightarrow> news" where
  "padded n = n(''title'' \<mapsto> '' '' @ title_of n @ '' '')"

definition padded_crawler :: "nat \<Rightarrow> response" where
  "padded_crawler n =
     (if n = 0
      then Returns \<lparr>success = True, cleaned_html = [], extracted_content = NoContent\<rparr>
      else if n = 1
      then Returns \<lparr>success = True, cleaned_html = [],
             extracted_content = Parsed (JList [JDict False (padded (article 0)),
               JDict False (article 0), JDict False (article (Suc 0))])\<rparr>
      else Returns \<lparr>success = True, cleaned_html = ''No Results Found'',
             extracted_content = NoContent\<rparr>)"

text \<open>A source whose every page returns the same two records, title only.\<close>

definition incomplete_crawler :: "nat \<Rightarrow> response" where
  "incomplete_crawler n =
     (if even n
      then Returns \<lparr>success = True, cleaned_html = [], extracted_content = NoContent\<rparr>
      else Returns \<lparr>success = True, cleaned_html = [],
             extracted_content = Parsed (JList [JDict False [''title'' \<mapsto> ''T''],
                                                 JDict False [''title'' \<mapsto> ''T'']])\<rparr>)"

section \<open>Trimming\<close>

lemma trim_unpadded:
  assumes "s \<noteq> [] \<Longrightarrow> \<not> whitespace (hd s) \<and> \<not> whitespace (last s)"
  shows "trim s = s"
proof (cases s)
  case Nil
  then show ?thesis by (simp add: trim_def)
next
  case (Cons c cs)
  with assms have h: "\<not> whitespace c" and l: "\<not> whitespace (last (c # cs))" by simp_all
  from h Cons have "dropWhile whitespace s = s" by simp
  moreover have "dropWhile whitespace (rev s) = rev s"
  proof (cases "rev s")
    case Nil
    then show ?thesis by simp
  next
    case (Cons d ds)
    then have "d = hd (rev s)" by simp
    also have "\<dots> = last s" using \<open>s = c # cs\<close> by (simp add: hd_rev)
    finally have "\<not> whitespace d" using l \<open>s = c # cs\<close> by simp
    with Cons show ?thesis by simp
  qed
  ultimately show ?thesis by (simp add: trim_def)
qed

lemma length_trim: "length (trim s) \<le> length s"
proof -
  have "length (dropWhile whitespace (rev (dropWhile whitespace s))) \<le>
        length (rev (dropWhile whitespace s))"
    by (rule length_dropWhile_le)
  also have "\<dots> \<le> length s" by (simp add: length_dropWhile_le)
  finally show ?thesis by (simp add: trim_def)
qed

lemma trim_replicate_a: "trim (replicate n CHR ''a'') = replicate n CHR ''a''"
  by (rule trim_unpadded) (cases n, simp_all add: whitespace_def)

lemma longer_title_unseen:
  assumes "\<forall>t\<in>seen. length t < n" and "n \<le> Suc k"
  shows "replicate (Suc k) CHR ''a'' \<notin> trim ` seen"
proof
  assume "replicate (Suc k) CHR ''a'' \<in> trim ` seen"
  then obtain t where t: "t \<in> seen" and e: "replicate (Suc k) CHR ''a'' = trim t"
    by blast
  from e have "length (trim t) = Suc k" by (metis length_replicate)
  with length_trim [of t] have "Suc k \<le> length t" by simp
  with assms t show False by fastforce
qed

section \<open>The loop over the extracted items\<close>

lemma dict_get_pop [simp]:
  "dict_get (d(''error'' := None)) ''title'' dflt = dict_get d ''title'' dflt"
  by (simp add: dict_get_def)

lemma process_news_Nil: "process_news ic idup rk [] seen = ([], seen)"
  by simp

lemma process_news_Cons:
  "process_news ic idup rk (item # rest) seen =
     (if accepted ic idup rk seen item
      then (cleaned item #
              fst (process_news ic idup rk rest (insert (title_of (cleaned item)) seen)),
            snd (process_news ic idup rk rest (insert (title_of (cleaned item)) seen)))
      else process_news ic idup rk rest seen)"
  by (cases item) (simp_all add: accepted_def Let_def title_of_def split: prod.splits)

declare process_news.simps [simp del]

lemma accepted_title: "accepted ic idup rk seen item \<Longrightarrow> title_of (cleaned item) \<noteq> []"
  by (cases item) (simp_all add: accepted_def title_of_def)

lemma accepted_complete: "accepted ic idup rk seen item \<Longrightarrow> ic (cleaned item) rk"
  by (cases item) (simp_all add: accepted_def)

lemma process_news_nonempty_titles:
  "\<forall>n \<in> set (fst (process_news ic idup rk items seen)). title_of n \<noteq> []"
proof (induction items arbitrary: seen)
  case Nil
  show ?case by (simp add: process_news_Nil)
next
  case (Cons item rest)
  show ?case
  proof (cases "accepted ic idup rk seen item")
    case True
    with Cons.IH [of "insert (title_of (cleaned item)) seen"] accepted_title [OF True]
    show ?thesis by (simp add: process_news_Cons)
  next
    case False
    with Cons.IH [of seen] show ?thesis by (simp add: process_news_Cons)
  qed
qed

lemma process_news_seen:
  "snd (process_news ic idup rk items seen) =
     seen \<union> title_of ` set (fst (process_news ic idup rk items seen))"
proof (induction items arbitrary: seen)
  case Nil
  show ?case by (simp add: process_news_Nil)
next
  case (Cons item rest)
  show ?case
  proof (cases "accepted ic idup rk seen item")
    case True
    with Cons.IH [of "insert (title_of (cleaned item)) seen"]
    show ?thesis by (simp add: process_news_Cons)
  next
    case False
    with Cons.IH [of seen] show ?thesis by (simp add: process_news_Cons)
  qed
qed

lemma process_news_none_seen:
  "process_news ic idup rk items seen = ([], seen') \<Longrightarrow> seen' = seen"
  using process_news_seen [of ic idup rk items seen] by simp

text \<open>
  C10. In the page loop, a raw record that passes the completeness check but whose title
  is the empty string (or missing, which \<^verbatim>\<open>get\<close> turns into the empty string) is
  rejected, whatever the two helpers compute: it is not in the page's valid batch, and
  the titles added to the seen set are those of the valid batch, none of them empty.
\<close>

theorem empty_title_rejected:
  assumes "process_news ic idup rk items seen = (complete_news, seen')"
    and "JDict err d \<in> set items"
    and "ic (d(''error'' := None)) rk"
    and "dict_get d ''title'' [] = []"
  shows "d(''error'' := None) \<notin> set complete_news \<and>
         seen' = seen \<union> title_of ` set complete_news \<and>
         [] \<notin> title_of ` set complete_news"
proof -
  have t: "title_of (d(''error'' := None)) = []"
    using assms(4) by (simp add: title_of_def)
  have ne: "\<forall>n \<in> set complete_news. title_of n \<noteq> []"
    using process_news_nonempty_titles [of ic idup rk items seen] assms(1) by simp
  have a: "d(''error'' := None) \<notin> set complete_news"
    using ne t by blast
  have b: "[] \<notin> title_of ` set complete_news"
    using ne by force
  have c: "seen' = seen \<union> title_of ` set complete_news"
    using process_news_seen [of ic idup rk items seen] assms(1) by simp
  from a b c show ?thesis by simp
qed

theorem empty_title_rejected_witness:
  "process_news has_all_keys is_duplicate_news REQUIRED_KEYS
     [JDict False [''title'' \<mapsto> [], ''description'' \<mapsto> ''d'', ''url'' \<mapsto> ''u'',
                   ''publishtime'' \<mapsto> ''p'', ''provider'' \<mapsto> ''x'']] {} = ([], {}) \<and>
   has_all_keys ([''title'' \<mapsto> [], ''description'' \<mapsto> ''d'', ''url'' \<mapsto> ''u'',
                   ''publishtime'' \<mapsto> ''p'', ''provider'' \<mapsto> ''x''](''error'' := None))
     REQUIRED_KEYS"
proof -
  let ?d = "[''title'' \<mapsto> [], ''description'' \<mapsto> ''d'', ''url'' \<mapsto> ''u'',
             ''publishtime'' \<mapsto> ''p'', ''provider'' \<mapsto> ''x'']"
  have r: "process_news has_all_keys is_duplicate_news REQUIRED_KEYS [JDict False ?d] {} =
             ([], {})"
    by (simp add: process_news_Cons process_news_Nil accepted_def dict_get_def)
  have h2: "JDict False ?d \<in> set [JDict False ?d]" by simp
  have h3: "has_all_keys (?d(''error'' := None)) REQUIRED_KEYS"
    by (simp add: REQUIRED_KEYS_def has_all_keys_def)
  have h4: "dict_get ?d ''title'' [] = []" by (simp add: dict_get_def)
  from empty_title_rejected [OF r h2 h3 h4] r h3 show ?thesis by simp
qed

section \<open>The one-shot transform\<close>

lemma format_items_map: "format_items items = map format_item items"
  by (induction items) simp_all

text \<open>
  C9. For every list of raw items of the search API, \<^verbatim>\<open>process_newsdata_with_gemini\<close>
  returns one record per item, in the order of the items; the record of an item takes
  \<^verbatim>\<open>url\<close> from the item's \<^verbatim>\<open>link\<close>, \<^verbatim>\<open>publishtime\<close> from its \<^verbatim>\<open>pubDate\<close> and
  \<^verbatim>\<open>provider\<close> from its \<^verbatim>\<open>source_id\<close> (title and description keep their names), each
  with the default of the source where the item has no such entry.
\<close>

theorem one_shot_transform_one_to_one:
  "length (process_newsdata_with_gemini raw_results gemini_key) = length raw_results \<and>
   (\<forall>i < length raw_results.
      (process_newsdata_with_gemini raw_results gemini_key ! i) ''url'' =
         Some (dict_get (raw_results ! i) ''link'' []) \<and>
      (process_newsdata_with_gemini raw_results gemini_key ! i) ''publishtime'' =
         Some (dict_get (raw_results ! i) ''pubDate'' []) \<and>
      (process_newsdata_with_gemini raw_results gemini_key ! i) ''provider'' =
         Some (dict_get (raw_results ! i) ''source_id'' ''newsdata'') \<and>
      (process_newsdata_with_gemini raw_results gemini_key ! i) ''title'' =
         Some (dict_get (raw_results ! i) ''title'' []) \<and>
      (process_newsdata_with_gemini raw_results gemini_key ! i) ''description'' =
         Some (dict_get (raw_results ! i) ''description'' []))"
proof -
  have "process_newsdata_with_gemini raw_results gemini_key = map format_item raw_results"
    by (simp add: process_newsdata_with_gemini_def format_items_map)
  then show ?thesis
    by (simp add: format_item_def)
qed

theorem one_shot_transform_one_to_one_witness:
  "length (process_newsdata_with_gemini
     [[''title'' \<mapsto> ''A'', ''link'' \<mapsto> ''http://a'', ''pubDate'' \<mapsto> ''today'',
       ''source_id'' \<mapsto> ''src'']] ''key'') = 1 \<and>
   (process_newsdata_with_gemini
     [[''title'' \<mapsto> ''A'', ''link'' \<mapsto> ''http://a'', ''pubDate'' \<mapsto> ''today'',
       ''source_id'' \<mapsto> ''src'']] ''key'' ! 0) ''url'' = Some ''http://a'' \<and>
   (process_newsdata_with_gemini
     [[''title'' \<mapsto> ''A'', ''link'' \<mapsto> ''http://a'', ''pubDate'' \<mapsto> ''today'',
       ''source_id'' \<mapsto> ''src'']] ''key'' ! 0) ''publishtime'' = Some ''today'' \<and>
   (process_newsdata_with_gemini
     [[''title'' \<mapsto> ''A'', ''link'' \<mapsto> ''http://a'', ''pubDate'' \<mapsto> ''today'',
       ''source_id'' \<mapsto> ''src'']] ''key'' ! 0) ''provider'' = Some ''src''"
  using one_shot_transform_one_to_one
    [of "[[''title'' \<mapsto> ''A'', ''link'' \<mapsto> ''http://a'', ''pubDate'' \<mapsto> ''today'',
           ''source_id'' \<mapsto> ''src'']]" "''key''"]
  by (simp add: dict_get_def)

section \<open>All sources: isolation of failures\<close>

lemma zip_map_same: "zip (map f xs) (map g xs) = map (\<lambda>x. (f x, g x)) xs"
  by (induction xs) simp_all

text \<open>
  The loop over the results: as long as every raised value is an instance of
  \<^verbatim>\<open>Exception\<close> it reports every source and ends with the total; the first raised value
  that is none ends it with \<^verbatim>\<open>TypeError\<close>.
\<close>

lemma process_results_eq:
  assumes "\<forall>x\<in>set xs. \<forall>e. snd x = Inl e \<longrightarrow> is_Exception e"
  shows "process_results xs total_news =
     (map (\<lambda>(source_name, r). case r of Inl e \<Rightarrow> Failed source_name e
                                  | Inr result \<Rightarrow> Completed source_name (length result)) xs,
      Inr (total_news + sum_list (map (\<lambda>(source_name, r). case r of Inl e \<Rightarrow> 0
                                  | Inr result \<Rightarrow> length result) xs)))"
  using assms
proof (induction xs arbitrary: total_news)
  case Nil
  show ?case by simp
next
  case (Cons x xs)
  obtain source_name r where x: "x = (source_name, r)" by (cases x)
  from Cons.prems have rest: "\<forall>x\<in>set xs. \<forall>e. snd x = Inl e \<longrightarrow> is_Exception e"
    by simp
  show ?case
  proof (cases r)
    case (Inl e)
    with x Cons.prems have "is_Exception e" by simp
    with Inl x Cons.IH [OF rest, of total_news] show ?thesis by simp
  next
    case (Inr result)
    with x Cons.IH [OF rest, of "total_news + length result"] show ?thesis by simp
  qed
qed

lemma process_results_no_exception:
  assumes "\<forall>x\<in>set xs. \<forall>e. snd x = Inl e \<longrightarrow> is_Exception e"
    and "\<not> is_Exception e"
  shows "process_results (xs @ (source_name, Inl e) # ys) total_news =
     (map (\<lambda>(source_name, r). case r of Inl e \<Rightarrow> Failed source_name e
                                  | Inr result \<Rightarrow> Completed source_name (length result)) xs,
      Inl TypeError)"
  using assms(1)
proof (induction xs arbitrary: total_news)
  case Nil
  from assms(2) show ?case by simp
next
  case (Cons x xs)
  obtain name r where x: "x = (name, r)" by (cases x)
  from Cons.prems have rest: "\<forall>x\<in>set xs. \<forall>e. snd x = Inl e \<longrightarrow> is_Exception e"
    by simp
  show ?case
  proof (cases r)
    case (Inl e')
    with x Cons.prems have "is_Exception e'" by simp
    with Inl x Cons.IH [OF rest, of total_news] show ?thesis by simp
  next
    case (Inr result)
    with x Cons.IH [OF rest, of "total_news + length result"] show ?thesis by simp
  qed
qed

text \<open>The sources of \<^verbatim>\<open>config.py\<close> give four tasks.\<close>

lemma sources_tasks:
  "map_sum id (map (\<lambda>(source_name, kind, source_config). (source_name, kind)))
     (create_tasks SOURCES) =
   Inr [(''moneycontrol'', ScraperTask), (''thehindu'', ScraperTask),
        (''indianexpress'', ScraperTask), (''newsdata'', ApiTask)]"
  by (simp add: SOURCES_def)

text \<open>
  A unit of work that ends with a raised value that is no instance of \<^verbatim>\<open>Exception\<close> (the
  \<^verbatim>\<open>CancelledError\<close> of a cancelled task) is not taken for a failed source: \<^verbatim>\<open>main\<close>
  reports the tasks before it and raises \<^verbatim>\<open>TypeError\<close>, without a report for that task or
  the tasks after it, and without the total.
\<close>

lemma cancelled_task_ends_report:
  assumes "create_tasks sources = Inr (before @ t # after)"
    and "\<forall>t\<in>set before. \<forall>e. fst (run_task ic idup w t) = Inl e \<longrightarrow> is_Exception e"
    and "fst (run_task ic idup w t) = Inl e"
    and "\<not> is_Exception e"
  shows "main ic idup w sources =
     (map (\<lambda>t. case fst (run_task ic idup w t) of
                      Inl e \<Rightarrow> Failed (fst t) e
                    | Inr result \<Rightarrow> Completed (fst t) (length result)) before,
      Inl TypeError)"
proof -
  let ?res = "\<lambda>t. (fst t, fst (run_task ic idup w t))"
  have ok: "\<forall>x\<in>set (map ?res before). \<forall>e. snd x = Inl e \<longrightarrow> is_Exception e"
    using assms(2) by simp
  have "main ic idup w sources =
      process_results (map ?res before @ (fst t, Inl e) # map ?res after) 0"
    using assms(1,3) by (simp add: main_def gather_def zip_map_same comp_def)
  also have "\<dots> = (map (\<lambda>(source_name, r). case r of Inl e \<Rightarrow> Failed source_name e
                                  | Inr result \<Rightarrow> Completed source_name (length result))
                      (map ?res before), Inl TypeError)"
    using ok assms(4) by (rule process_results_no_exception)
  finally show ?thesis by (simp add: comp_def)
qed

lemma cancelled_site:
  "fst (run_task ic idup cancelled_world (''site'', ScraperTask, site_config)) =
     Inl CancelledError"
  by (simp add: site_config_def cancelled_world_def demo_world_def crawl_scraper_source_def
      truthy_def crawl_pages.simps fetch_and_process_page_def check_no_results_def
      init_session_def kafka_topic_of_def dict_get_def eval_nat_numeral Let_def)

lemma cancelled_source_ends_report:
  "main ic idup cancelled_world [(''site'', site_config), (''feed'', feed_config)] =
     ([], Inl TypeError)"
proof -
  have tasks: "create_tasks [(''site'', site_config), (''feed'', feed_config)] =
      Inr ([] @ (''site'', ScraperTask, site_config) # [(''feed'', ApiTask, feed_config)])"
    by (simp add: site_config_def feed_config_def)
  from cancelled_task_ends_report [OF tasks _ cancelled_site] show ?thesis by simp
qed

text \<open>
  C7. For every list of configured sources from which \<^verbatim>\<open>main\<close> can create its tasks, and
  whatever exceptions (instances of \<^verbatim>\<open>Exception\<close>) the units of work raise, \<^verbatim>\<open>main\<close>
  reports every task, in order: a task whose unit of work raised is reported as failed,
  every other task as completed with the number of its records, whatever the other tasks
  did; and the total is the sum of the record counts of the tasks that did not raise.
\<close>

theorem fault_isolation:
  assumes "create_tasks sources = Inr tasks"
    and "\<forall>t\<in>set tasks. \<forall>e. fst (run_task ic idup w t) = Inl e \<longrightarrow> is_Exception e"
  shows "main ic idup w sources =
     (map (\<lambda>t. case fst (run_task ic idup w t) of
                      Inl e \<Rightarrow> Failed (fst t) e
                    | Inr result \<Rightarrow> Completed (fst t) (length result)) tasks,
      Inr (sum_list (map (\<lambda>t. case fst (run_task ic idup w t) of
                      Inl e \<Rightarrow> 0
                    | Inr result \<Rightarrow> length result) tasks)))"
proof -
  let ?res = "\<lambda>t. (fst t, fst (run_task ic idup w t))"
  have ok: "\<forall>x\<in>set (map ?res tasks). \<forall>e. snd x = Inl e \<longrightarrow> is_Exception e"
    using assms(2) by simp
  have "main ic idup w sources = process_results (map ?res tasks) 0"
    using assms(1) by (simp add: main_def gather_def zip_map_same comp_def)
  with process_results_eq [OF ok, of 0] show ?thesis by (simp add: comp_def)
qed

lemma demo_tasks:
  "create_tasks [(''site'', site_config), (''feed'', feed_config)] =
     Inr [(''site'', ScraperTask, site_config), (''feed'', ApiTask, feed_config)]"
  by (simp add: site_config_def feed_config_def)

lemma demo_site:
  "fst (run_task ic idup demo_world (''site'', ScraperTask, site_config)) =
     Inl (CrawlerError ''browser closed'')"
  by (simp add: site_config_def demo_world_def crawl_scraper_source_def truthy_def
      crawl_pages.simps fetch_and_process_page_def check_no_results_def init_session_def
      kafka_topic_of_def dict_get_def eval_nat_numeral Let_def)

lemma demo_feed:
  "fst (run_task ic idup demo_world (''feed'', ApiTask, feed_config)) =
     Inr [format_item [''title'' \<mapsto> ''A'']]"
  by (simp add: feed_config_def demo_world_def crawl_api_source_def
      process_newsdata_with_gemini_def kafka_topic_of_def dict_get_def Let_def)

theorem fault_isolation_witness:
  "main is_complete_news is_duplicate_news demo_world
     [(''site'', site_config), (''feed'', feed_config)] =
     ([Failed ''site'' (CrawlerError ''browser closed''), Completed ''feed'' 1], Inr 1)"
proof -
  have ok: "\<forall>t\<in>set [(''site'', ScraperTask, site_config), (''feed'', ApiTask, feed_config)].
      \<forall>e. fst (run_task is_complete_news is_duplicate_news demo_world t) = Inl e \<longrightarrow>
        is_Exception e"
    by (simp add: demo_site demo_feed del: run_task.simps)
  from fault_isolation [OF demo_tasks ok] show ?thesis
    by (simp add: demo_site demo_feed del: run_task.simps)
qed

section \<open>Missing credentials\<close>

text \<open>
  C8. A source whose credential is absent from the environment (or empty) returns the
  empty list without any event: no fetch, no publish, no snapshot. For a paginated source
  the credential is the variable its configuration names; the one-shot source needs that
  variable and \<^verbatim>\<open>NEWSDATA_API_KEY\<close>. The other sources are not affected: \<^verbatim>\<open>gather\<close> runs
  every task before and after such a task, and the result it has for each of them is
  what that task's own unit of work returns or raises, with the events of that unit.
\<close>

theorem missing_credential_skips_source:
  assumes "source_config ''gemini_key_env'' = Some key_env"
  shows "(\<not> truthy (getenv w key_env) \<longrightarrow>
            run_task ic idup w (source_name, ScraperTask, source_config) = (Inr [], [])) \<and>
         (\<not> truthy (getenv w key_env) \<or> \<not> truthy (getenv w ''NEWSDATA_API_KEY'') \<longrightarrow>
            run_task ic idup w (source_name, ApiTask, source_config) = (Inr [], [])) \<and>
         (run_task ic idup w (source_name, kind, source_config) = (Inr [], []) \<longrightarrow>
            gather ic idup w (before @ [(source_name, kind, source_config)] @ after) =
              map (run_task ic idup w) before @ [(Inr [], [])] @
              map (run_task ic idup w) after)"
proof -
  have scraper: "run_task ic idup w (source_name, ScraperTask, source_config) = (Inr [], [])"
    if "\<not> truthy (getenv w key_env)"
    using assms that by (simp add: crawl_scraper_source_def init_session_def)
  have api: "run_task ic idup w (source_name, ApiTask, source_config) = (Inr [], [])"
    if "\<not> truthy (getenv w key_env) \<or> \<not> truthy (getenv w ''NEWSDATA_API_KEY'')"
    using assms that
    by (auto simp: crawl_api_source_def truthy_def split: option.splits)
  have others: "gather ic idup w (before @ [(source_name, kind, source_config)] @ after) =
      map (run_task ic idup w) before @ [(Inr [], [])] @ map (run_task ic idup w) after"
    if "run_task ic idup w (source_name, kind, source_config) = (Inr [], [])"
    using that by (simp add: gather_def)
  from scraper api others show ?thesis by blast
qed

lemma keyed_feed:
  "run_task ic idup keyed_world (''feed'', ApiTask, keyed_feed_config) =
     (Inr [format_item [''title'' \<mapsto> ''A'']],
      [ApiRequest, Publish [format_item [''title'' \<mapsto> ''A'']] ''news-events'',
       Snapshot [format_item [''title'' \<mapsto> ''A'']] ''feed_news.csv''])"
  by (simp add: keyed_feed_config_def keyed_world_def crawl_api_source_def
      process_newsdata_with_gemini_def kafka_topic_of_def dict_get_def Let_def)

theorem missing_credential_skips_source_witness:
  "run_task is_complete_news is_duplicate_news keyed_world (''site'', ScraperTask, site_config) =
     (Inr [], []) \<and>
   run_task is_complete_news is_duplicate_news bare_world (''feed'', ApiTask, feed_config) =
     (Inr [], []) \<and>
   gather is_complete_news is_duplicate_news keyed_world
     ([(''feed'', ApiTask, keyed_feed_config)] @ [(''site'', ScraperTask, site_config)] @
      [(''feed'', ApiTask, keyed_feed_config)]) =
     [(Inr [format_item [''title'' \<mapsto> ''A'']],
       [ApiRequest, Publish [format_item [''title'' \<mapsto> ''A'']] ''news-events'',
        Snapshot [format_item [''title'' \<mapsto> ''A'']] ''feed_news.csv'']),
      (Inr [], []),
      (Inr [format_item [''title'' \<mapsto> ''A'']],
       [ApiRequest, Publish [format_item [''title'' \<mapsto> ''A'']] ''news-events'',
        Snapshot [format_item [''title'' \<mapsto> ''A'']] ''feed_news.csv''])]"
proof -
  have k1: "site_config ''gemini_key_env'' = Some ''K1''"
    by (simp add: site_config_def)
  have k2: "feed_config ''gemini_key_env'' = Some ''K1''"
    by (simp add: feed_config_def)
  have nk: "\<not> truthy (getenv keyed_world ''K1'')"
    by (simp add: keyed_world_def truthy_def)
  have nb: "\<not> truthy (getenv bare_world ''K1'')"
    by (simp add: bare_world_def truthy_def)
  note s = missing_credential_skips_source [where source_config = site_config and
      key_env = "''K1''" and w = keyed_world and ic = is_complete_news and
      idup = is_duplicate_news and source_name = "''site''" and kind = ScraperTask and
      before = "[(''feed'', ApiTask, keyed_feed_config)]" and
      after = "[(''feed'', ApiTask, keyed_feed_config)]", OF k1]
  note a = missing_credential_skips_source [where source_config = feed_config and
      key_env = "''K1''" and w = bare_world and ic = is_complete_news and
      idup = is_duplicate_news and source_name = "''feed''" and kind = ApiTask and
      before = "[]" and after = "[]", OF k2]
  from s nk have r1:
    "run_task is_complete_news is_duplicate_news keyed_world (''site'', ScraperTask, site_config) =
       (Inr [], [])" by blast
  from a nb have r2:
    "run_task is_complete_news is_duplicate_news bare_world (''feed'', ApiTask, feed_config) =
       (Inr [], [])" by blast
  from s r1 have
    "gather is_complete_news is_duplicate_news keyed_world
       ([(''feed'', ApiTask, keyed_feed_config)] @ [(''site'', ScraperTask, site_config)] @
        [(''feed'', ApiTask, keyed_feed_config)]) =
     map (run_task is_complete_news is_duplicate_news keyed_world)
       [(''feed'', ApiTask, keyed_feed_config)] @ [(Inr [], [])] @
     map (run_task is_complete_news is_duplicate_news keyed_world)
       [(''feed'', ApiTask, keyed_feed_config)]"
    by blast
  with r1 r2 show ?thesis by (simp add: keyed_feed del: run_task.simps)
qed

section \<open>One fetch of a page\<close>

text \<open>
  \<^verbatim>\<open>fetch_and_process_page\<close> by cases: the probe raises, finds the marker, or hands over
  to the extraction call; and the four kinds of result a fetch can have, with the session
  each leaves behind.
\<close>

lemma check_no_results_eq:
  "check_no_results crawler p st =
     (case crawler (calls st) of
        Raises e \<Rightarrow> (Inl e, probed p st)
      | Returns result \<Rightarrow>
          (Inr (success result \<and> contains ''No Results Found'' (cleaned_html result)),
           probed p st))"
  by (simp add: check_no_results_def probed_def Let_def split: response.splits)

lemma fetch_eq:
  "fetch_and_process_page ic idup crawler p rk st =
     (case crawler (calls st) of
        Raises e \<Rightarrow> (Inl e, probed p st)
      | Returns result \<Rightarrow>
          if success result \<and> contains ''No Results Found'' (cleaned_html result)
          then (Inr ([], True), probed p st)
          else after_probe ic idup crawler p rk st)"
proof (cases "crawler (calls st)")
  case (Raises e)
  then show ?thesis
    by (simp add: fetch_and_process_page_def check_no_results_eq)
next
  case (Returns result)
  show ?thesis
  proof (cases "success result \<and> contains ''No Results Found'' (cleaned_html result)")
    case True
    with Returns show ?thesis
      by (simp add: fetch_and_process_page_def check_no_results_eq)
  next
    case False
    have "fetch_and_process_page ic idup crawler p rk st = after_probe ic idup crawler p rk st"
    proof (cases "crawler (Suc (calls st))")
      case (Raises e)
      with Returns False show ?thesis
        by (simp add: fetch_and_process_page_def check_no_results_eq after_probe_def
            probed_def extracted_def Let_def)
    next
      case r2: (Returns result2)
      show ?thesis
      proof (cases "success result2")
        case False
        with Returns \<open>\<not> (success result \<and> _)\<close> r2 show ?thesis
          by (simp add: fetch_and_process_page_def check_no_results_eq after_probe_def
            probed_def extracted_def Let_def)
      next
        case True
        show ?thesis
        proof (cases "parse_extracted (extracted_content result2)")
          case None
          with Returns \<open>\<not> (success result \<and> _)\<close> r2 True show ?thesis
            by (simp add: fetch_and_process_page_def check_no_results_eq after_probe_def
                probed_def extracted_def Let_def)
        next
          case (Some data)
          then have nc: "extracted_content result2 \<noteq> NoContent" by auto
          show ?thesis
          proof (cases data)
            case Nil
            with Some nc Returns \<open>\<not> (success result \<and> _)\<close> r2 True show ?thesis
              by (simp add: fetch_and_process_page_def check_no_results_eq after_probe_def
                  probed_def extracted_def Let_def)
          next
            case (Cons x xs)
            show ?thesis
            proof (cases x)
              case (JDict err d)
              with Cons Some nc Returns \<open>\<not> (success result \<and> _)\<close> r2 True show ?thesis
                by (simp add: fetch_and_process_page_def check_no_results_eq after_probe_def
                  probed_def extracted_def Let_def split: prod.splits)
            next
              case (JList ys)
              with Cons Some nc Returns \<open>\<not> (success result \<and> _)\<close> r2 True show ?thesis
                by (simp add: fetch_and_process_page_def check_no_results_eq after_probe_def
                  probed_def extracted_def Let_def)
            next
              case JOther
              with Cons Some nc Returns \<open>\<not> (success result \<and> _)\<close> r2 True show ?thesis
                by (simp add: fetch_and_process_page_def check_no_results_eq after_probe_def
                  probed_def extracted_def Let_def)
            qed
          qed
        qed
      qed
    qed
    with Returns False show ?thesis by auto
  qed
qed

lemma fetch_cases [consumes 1, case_names marker raised transient batch]:
  assumes "fetch_and_process_page ic idup crawler p rk st = (r, st')"
  obtains
    (marker) "r = Inr ([], True)" "st' = probed p st"
  | (raised) e where "r = Inl e" "st' = probed p st \<or> st' = extracted p st"
  | (transient) "r = Inr ([], False)" "st' = extracted p st"
  | (batch) items where
      "fst (process_news ic idup rk items (seen_names st)) \<noteq> []"
      "r = Inr (fst (process_news ic idup rk items (seen_names st)), False)"
      "st' = (extracted p st)\<lparr>seen_names :=
                snd (process_news ic idup rk items (seen_names st))\<rparr>"
proof (cases "crawler (calls st)")
  case (Raises e)
  with assms have "r = Inl e" "st' = probed p st" by (simp_all add: fetch_eq)
  then show ?thesis using raised by blast
next
  case (Returns result)
  show ?thesis
  proof (cases "success result \<and> contains ''No Results Found'' (cleaned_html result)")
    case True
    with Returns assms have "r = Inr ([], True)" "st' = probed p st"
      by (simp_all add: fetch_eq)
    then show ?thesis using marker by blast
  next
    case False
    with Returns assms have ap: "after_probe ic idup crawler p rk st = (r, st')"
      by (auto simp: fetch_eq)
    show ?thesis
    proof (cases "crawler (Suc (calls st))")
      case (Raises e)
      with ap have "r = Inl e" "st' = extracted p st" by (simp_all add: after_probe_def)
      then show ?thesis using raised by blast
    next
      case r2: (Returns result2)
      show ?thesis
      proof (cases "if success result2 then parse_extracted (extracted_content result2) else None")
        case None
        with ap r2 have "r = Inr ([], False)" "st' = extracted p st"
          by (simp_all add: after_probe_def)
        then show ?thesis using transient by blast
      next
        case (Some data)
        show ?thesis
        proof (cases data)
          case Nil
          with Some ap r2 have "r = Inl AttributeError" "st' = extracted p st"
            by (simp_all add: after_probe_def)
          then show ?thesis using raised by blast
        next
          case (Cons x xs)
          show ?thesis
          proof (cases x)
            case (JDict err d)
            let ?res = "process_news ic idup rk (JDict err d # xs) (seen_names st)"
            from JDict Cons Some ap r2 have r: "r = Inr (fst ?res, False)"
              and st': "st' = (extracted p st)\<lparr>seen_names := snd ?res\<rparr>"
              by (simp_all add: after_probe_def)
            show ?thesis
            proof (cases "fst ?res = []")
              case True
              then have "snd ?res = seen_names st"
                using process_news_seen [of ic idup rk "JDict err d # xs" "seen_names st"]
                by simp
              with True r st' have "r = Inr ([], False)" "st' = extracted p st"
                by (simp_all add: extracted_def)
              then show ?thesis using transient by blast
            next
              case False
              with r st' show ?thesis using batch by blast
            qed
          next
            case (JList ys)
            with Cons Some ap r2 have "r = Inl AttributeError" "st' = extracted p st"
              by (simp_all add: after_probe_def)
            then show ?thesis using raised by blast
          next
            case JOther
            with Cons Some ap r2 have "r = Inl AttributeError" "st' = extracted p st"
              by (simp_all add: after_probe_def)
            then show ?thesis using raised by blast
          qed
        qed
      qed
    qed
  qed
qed

lemma fetch_transient:
  "fetch_and_process_page ic idup crawler p rk st = (Inr ([], False), st') \<Longrightarrow>
   st' = extracted p st"
  by (erule fetch_cases) auto

lemma fetch_transient_fst:
  assumes "fst (fetch_and_process_page ic idup crawler p rk st) = Inr ([], False)"
  shows "fetch_and_process_page ic idup crawler p rk st = (Inr ([], False), extracted p st)"
proof -
  obtain r st' where f: "fetch_and_process_page ic idup crawler p rk st = (r, st')"
    by (cases "fetch_and_process_page ic idup crawler p rk st")
  with assms have "r = Inr ([], False)" by simp
  with f fetch_transient [of ic idup crawler p rk st st'] show ?thesis by simp
qed

section \<open>The retry loop\<close>

text \<open>
  One round of the loop: after an attempt without news or flag the loop goes on from the
  session \<open>retried p st\<close>; any other outcome is returned as it is.
\<close>

lemma fetch_with_retries_Suc:
  "fetch_with_retries ic idup crawler p (Suc n) st =
     (if fst (fetch_and_process_page ic idup crawler p REQUIRED_KEYS st) = Inr ([], False)
      then fetch_with_retries ic idup crawler p n (retried p st)
      else fetch_and_process_page ic idup crawler p REQUIRED_KEYS st)"
proof (cases "fst (fetch_and_process_page ic idup crawler p REQUIRED_KEYS st) = Inr ([], False)")
  case True
  from fetch_transient_fst [OF True] show ?thesis
    by (simp add: retried_def slept_def)
next
  case False
  obtain r st' where f: "fetch_and_process_page ic idup crawler p REQUIRED_KEYS st = (r, st')"
    by (cases "fetch_and_process_page ic idup crawler p REQUIRED_KEYS st")
  with False have "r \<noteq> Inr ([], False)" by simp
  with f show ?thesis
    by (cases r) (auto split: prod.splits)
qed

declare fetch_with_retries.simps(2) [simp del]

text \<open>
  The loop from both sides: \<open>k\<close> attempts without news or flag take the loop to
  \<open>(retried p ^^ k) st\<close> with \<open>k\<close> attempts fewer; and whatever the loop returns, it got
  there by some number of such attempts, followed by the attempt that decided, if any.
\<close>

lemma retries_forward:
  assumes "\<forall>i<k. fst (fetch_and_process_page ic idup crawler p REQUIRED_KEYS
                         ((retried p ^^ i) st)) = Inr ([], False)"
    and "k \<le> n"
  shows "fetch_with_retries ic idup crawler p n st =
         fetch_with_retries ic idup crawler p (n - k) ((retried p ^^ k) st)"
  using assms
proof (induction k arbitrary: st n)
  case 0
  show ?case by simp
next
  case (Suc k)
  from Suc.prems(2) obtain m where n: "n = Suc m" and km: "k \<le> m"
    by (cases n) auto
  from Suc.prems(1) have first:
    "fst (fetch_and_process_page ic idup crawler p REQUIRED_KEYS st) = Inr ([], False)"
    by force
  have rest: "\<forall>i<k. fst (fetch_and_process_page ic idup crawler p REQUIRED_KEYS
                         ((retried p ^^ i) (retried p st))) = Inr ([], False)"
  proof (intro allI impI)
    fix i assume "i < k"
    then have "Suc i < Suc k" by simp
    with Suc.prems(1) have
      "fst (fetch_and_process_page ic idup crawler p REQUIRED_KEYS
              ((retried p ^^ Suc i) st)) = Inr ([], False)" by blast
    then show "fst (fetch_and_process_page ic idup crawler p REQUIRED_KEYS
                         ((retried p ^^ i) (retried p st))) = Inr ([], False)"
      by (simp add: funpow_swap1)
  qed
  from Suc.IH [OF rest km] first n show ?case
    by (simp add: fetch_with_retries_Suc funpow_swap1)
qed

lemma retries_char:
  assumes "fetch_with_retries ic idup crawler p n st = (r, st')"
  shows "\<exists>k\<le>n. (\<forall>i<k. fst (fetch_and_process_page ic idup crawler p REQUIRED_KEYS
                         ((retried p ^^ i) st)) = Inr ([], False)) \<and>
           (if k = n then r = Inr ([], False) \<and> st' = (retried p ^^ n) st
            else fetch_and_process_page ic idup crawler p REQUIRED_KEYS ((retried p ^^ k) st)
                   = (r, st') \<and> r \<noteq> Inr ([], False))"
  using assms
proof (induction n arbitrary: st)
  case 0
  then show ?case by simp
next
  case (Suc n)
  show ?case
  proof (cases "fst (fetch_and_process_page ic idup crawler p REQUIRED_KEYS st) = Inr ([], False)")
    case True
    with Suc.prems have "fetch_with_retries ic idup crawler p n (retried p st) = (r, st')"
      by (simp add: fetch_with_retries_Suc)
    from Suc.IH [OF this] obtain k where k: "k \<le> n"
      and tr: "\<forall>i<k. fst (fetch_and_process_page ic idup crawler p REQUIRED_KEYS
                         ((retried p ^^ i) (retried p st))) = Inr ([], False)"
      and fin: "if k = n then r = Inr ([], False) \<and> st' = (retried p ^^ n) (retried p st)
            else fetch_and_process_page ic idup crawler p REQUIRED_KEYS
                   ((retried p ^^ k) (retried p st)) = (r, st') \<and> r \<noteq> Inr ([], False)"
      by blast
    have tr': "\<forall>i<Suc k. fst (fetch_and_process_page ic idup crawler p REQUIRED_KEYS
                         ((retried p ^^ i) st)) = Inr ([], False)"
    proof (intro allI impI)
      fix i assume i: "i < Suc k"
      show "fst (fetch_and_process_page ic idup crawler p REQUIRED_KEYS
                         ((retried p ^^ i) st)) = Inr ([], False)"
      proof (cases i)
        case 0
        with True show ?thesis by simp
      next
        case (Suc j)
        with i have "j < k" by simp
        with tr Suc show ?thesis by (simp add: funpow_swap1)
      qed
    qed
    from fin have fin': "if Suc k = Suc n then r = Inr ([], False) \<and> st' = (retried p ^^ Suc n) st
            else fetch_and_process_page ic idup crawler p REQUIRED_KEYS
                   ((retried p ^^ Suc k) st) = (r, st') \<and> r \<noteq> Inr ([], False)"
      by (simp add: funpow_swap1)
    from k tr' fin' show ?thesis
      by (intro exI [of _ "Suc k"]) simp
  next
    case False
    with Suc.prems have "fetch_and_process_page ic idup crawler p REQUIRED_KEYS st = (r, st')"
      by (simp add: fetch_with_retries_Suc)
    with False show ?thesis
      by (intro exI [of _ 0]) simp
  qed
qed

lemma trace_retried: "trace (retried p st) = trace st @ [Probe p, Extract p, Sleep 5]"
  by (simp add: retried_def slept_def extracted_def)

lemma calls_retried: "calls (retried p st) = calls st + 2"
  by (simp add: retried_def slept_def extracted_def)

lemma seen_retried: "seen_names (retried p st) = seen_names st"
  by (simp add: retried_def slept_def extracted_def)

lemma trace_retried_pow:
  "trace ((retried p ^^ k) st) = trace st @ concat (replicate k [Probe p, Extract p, Sleep 5])"
  by (induction k arbitrary: st) (simp_all add: funpow_swap1 trace_retried)

lemma calls_retried_pow: "calls ((retried p ^^ k) st) = calls st + 2 * k"
  by (induction k arbitrary: st) (simp_all add: funpow_swap1 calls_retried)

lemma seen_retried_pow: "seen_names ((retried p ^^ k) st) = seen_names st"
  by (induction k arbitrary: st) (simp_all add: funpow_swap1 seen_retried)

text \<open>The three ways through one round of the pagination loop.\<close>

lemma crawl_pages_stop:
  assumes "fetch_with_retries ic idup crawler p 3 st = (Inr (news, flag), st')"
    and "flag \<or> news = []"
  shows "crawl_pages ic idup crawler topic p all_news st = (Inr all_news, st')"
  using assms by (subst crawl_pages.simps) auto

lemma crawl_pages_raise:
  assumes "fetch_with_retries ic idup crawler p 3 st = (Inl e, st')"
  shows "crawl_pages ic idup crawler topic p all_news st = (Inl e, st')"
  using assms by (subst crawl_pages.simps) simp

lemma crawl_pages_step:
  assumes "fetch_with_retries ic idup crawler p 3 st = (Inr (news, False), st')"
    and "news \<noteq> []"
  shows "crawl_pages ic idup crawler topic p all_news st =
           (if p > 20 then (Inr (all_news @ news), published topic news st')
            else crawl_pages ic idup crawler topic (p + 1) (all_news @ news)
                   (slept 2 (published topic news st')))"
  using assms by (subst crawl_pages.simps) (simp add: Let_def published_def slept_def)

lemma failing_fetch:
  "fetch_and_process_page ic idup failing_crawler p rk st = (Inr ([], False), extracted p st)"
  by (simp add: fetch_eq after_probe_def failing_crawler_def)

lemma failing_retries:
  "fetch_with_retries ic idup failing_crawler p 3 st = (Inr ([], False), (retried p ^^ 3) st)"
  by (simp add: eval_nat_numeral fetch_with_retries_Suc failing_fetch)

text \<open>
  C6. Whenever the probe of a page finds the no-results marker, on the first attempt or
  after up to two attempts that gave nothing, the fetch returns the no-results flag after
  that one crawler call, without an extraction call; the retry loop and the pagination
  loop end there: the session returns what it had collected, and the probe is the last
  event of its trace.
\<close>

theorem terminal_marker_ends_session:
  assumes "j < 3"
    and "\<forall>i<j. fst (fetch_and_process_page ic idup crawler p REQUIRED_KEYS
                         ((retried p ^^ i) st)) = Inr ([], False)"
    and "crawler (calls st + 2 * j) = Returns result"
    and "success result"
    and "contains ''No Results Found'' (cleaned_html result)"
  shows "fetch_and_process_page ic idup crawler p REQUIRED_KEYS ((retried p ^^ j) st) =
           (Inr ([], True), probed p ((retried p ^^ j) st)) \<and>
         crawl_pages ic idup crawler topic p all_news st =
           (Inr all_news, probed p ((retried p ^^ j) st)) \<and>
         trace (probed p ((retried p ^^ j) st)) =
           trace st @ concat (replicate j [Probe p, Extract p, Sleep 5]) @ [Probe p]"
proof -
  let ?st = "(retried p ^^ j) st"
  from assms(3) have "crawler (calls ?st) = Returns result"
    by (simp add: calls_retried_pow)
  with assms(4,5) have f: "fetch_and_process_page ic idup crawler p REQUIRED_KEYS ?st =
      (Inr ([], True), probed p ?st)"
    by (simp add: fetch_eq)
  from assms(1) obtain m where m: "3 - j = Suc m" by (cases "3 - j") auto
  from assms(1) have "j \<le> 3" by simp
  from retries_forward [OF assms(2) this]
  have "fetch_with_retries ic idup crawler p 3 st = fetch_with_retries ic idup crawler p (3 - j) ?st" .
  with m f have "fetch_with_retries ic idup crawler p 3 st = (Inr ([], True), probed p ?st)"
    by (simp add: fetch_with_retries_Suc)
  then have c: "crawl_pages ic idup crawler topic p all_news st = (Inr all_news, probed p ?st)"
    by (rule crawl_pages_stop) simp
  have t: "trace (probed p ?st) =
      trace st @ concat (replicate j [Probe p, Extract p, Sleep 5]) @ [Probe p]"
    by (simp add: probed_def trace_retried_pow)
  from f c t show ?thesis by simp
qed

theorem terminal_marker_ends_session_witness:
  "crawl_pages is_complete_news is_duplicate_news ending_crawler ''news-events'' 1 []
     init_session = (Inr [], probed 1 (retried 1 init_session)) \<and>
   trace (probed 1 (retried 1 init_session)) = [Probe 1, Extract 1, Sleep 5, Probe 1]"
proof -
  have h1: "(1::nat) < 3" by simp
  have h2: "\<forall>i<1. fst (fetch_and_process_page is_complete_news is_duplicate_news ending_crawler 1
              REQUIRED_KEYS ((retried 1 ^^ i) init_session)) = Inr ([], False)"
    by (simp add: fetch_eq after_probe_def ending_crawler_def init_session_def)
  have h3: "ending_crawler (calls init_session + 2 * 1) =
      Returns \<lparr>success = True, cleaned_html = ''<p>No Results Found</p>'',
                    extracted_content = NoContent\<rparr>"
    by (simp add: ending_crawler_def init_session_def)
  have h4: "success \<lparr>success = True, cleaned_html = ''<p>No Results Found</p>'',
                    extracted_content = NoContent\<rparr>" by simp
  have h5: "contains ''No Results Found'' (cleaned_html \<lparr>success = True,
      cleaned_html = ''<p>No Results Found</p>'', extracted_content = NoContent\<rparr>)"
    by simp
  from terminal_marker_ends_session [OF h1 h2 h3 h4 h5, of "''news-events''" "[]"]
  show ?thesis by (simp add: init_session_def)
qed

text \<open>
  C4. The retry loop of a page makes at most three fetch attempts. Some number \<open>k \<le> 3\<close>
  of attempts give neither news nor the no-results flag, each followed by a wait of five
  seconds. If \<open>k = 3\<close> the loop is left with nothing, three attempts were made, and the
  pagination loop ends the session. Otherwise attempt \<open>k + 1\<close> is the first with another
  outcome (news, the flag or an exception); the loop returns it at once, with no further
  attempt and no wait.
\<close>

theorem retry_bound:
  assumes "fetch_with_retries ic idup crawler p 3 st = (r, st')"
  shows "\<exists>k\<le>3.
          (\<forall>i<k. fst (fetch_and_process_page ic idup crawler p REQUIRED_KEYS
                         ((retried p ^^ i) st)) = Inr ([], False)) \<and>
          trace ((retried p ^^ k) st) =
            trace st @ concat (replicate k [Probe p, Extract p, Sleep 5]) \<and>
          (if k = 3
           then r = Inr ([], False) \<and> st' = (retried p ^^ 3) st \<and>
                crawl_pages ic idup crawler topic p all_news st = (Inr all_news, st')
           else fetch_and_process_page ic idup crawler p REQUIRED_KEYS ((retried p ^^ k) st) =
                  (r, st') \<and> r \<noteq> Inr ([], False) \<and>
                (trace st' = trace ((retried p ^^ k) st) @ [Probe p] \<or>
                 trace st' = trace ((retried p ^^ k) st) @ [Probe p, Extract p]))"
proof -
  from retries_char [OF assms] obtain k where k: "k \<le> 3"
    and tr: "\<forall>i<k. fst (fetch_and_process_page ic idup crawler p REQUIRED_KEYS
                         ((retried p ^^ i) st)) = Inr ([], False)"
    and fin: "if k = 3 then r = Inr ([], False) \<and> st' = (retried p ^^ 3) st
            else fetch_and_process_page ic idup crawler p REQUIRED_KEYS ((retried p ^^ k) st)
                   = (r, st') \<and> r \<noteq> Inr ([], False)"
    by blast
  have shape: "trace ((retried p ^^ k) st) =
            trace st @ concat (replicate k [Probe p, Extract p, Sleep 5])"
    by (rule trace_retried_pow)
  have last: "if k = 3
           then r = Inr ([], False) \<and> st' = (retried p ^^ 3) st \<and>
                crawl_pages ic idup crawler topic p all_news st = (Inr all_news, st')
           else fetch_and_process_page ic idup crawler p REQUIRED_KEYS ((retried p ^^ k) st) =
                  (r, st') \<and> r \<noteq> Inr ([], False) \<and>
                (trace st' = trace ((retried p ^^ k) st) @ [Probe p] \<or>
                 trace st' = trace ((retried p ^^ k) st) @ [Probe p, Extract p])"
  proof (cases "k = 3")
    case True
    with fin have r: "r = Inr ([], False)" and st': "st' = (retried p ^^ 3) st" by simp_all
    from assms r have "crawl_pages ic idup crawler topic p all_news st = (Inr all_news, st')"
      by (intro crawl_pages_stop [where news = "[]" and flag = False]) simp_all
    with True r st' show ?thesis by simp
  next
    case False
    with fin have f: "fetch_and_process_page ic idup crawler p REQUIRED_KEYS
        ((retried p ^^ k) st) = (r, st')" and nt: "r \<noteq> Inr ([], False)" by simp_all
    from f have "trace st' = trace ((retried p ^^ k) st) @ [Probe p] \<or>
                 trace st' = trace ((retried p ^^ k) st) @ [Probe p, Extract p]"
      by (cases rule: fetch_cases) (auto simp: probed_def extracted_def)
    with False f nt show ?thesis by simp
  qed
  from k tr shape last show ?thesis by blast
qed

theorem retry_bound_witness:
  "crawl_pages is_complete_news is_duplicate_news failing_crawler ''news-events'' 1 []
     init_session = (Inr [], (retried 1 ^^ 3) init_session) \<and>
   trace ((retried 1 ^^ 3) init_session) =
     [Probe 1, Extract 1, Sleep 5, Probe 1, Extract 1, Sleep 5, Probe 1, Extract 1, Sleep 5]"
proof -
  from retry_bound [OF failing_retries, of is_complete_news is_duplicate_news 1 init_session
      "''news-events''" "[]"]
  obtain k where k: "k \<le> 3"
    and fin: "if k = 3
           then Inr ([], False) = (Inr ([], False) :: error + news list \<times> bool) \<and>
                (retried 1 ^^ 3) init_session = (retried 1 ^^ 3) init_session \<and>
                crawl_pages is_complete_news is_duplicate_news failing_crawler ''news-events'' 1 []
                  init_session = (Inr [], (retried 1 ^^ 3) init_session)
           else fetch_and_process_page is_complete_news is_duplicate_news failing_crawler 1
                  REQUIRED_KEYS ((retried 1 ^^ k) init_session) =
                  (Inr ([], False), (retried 1 ^^ 3) init_session) \<and>
                Inr ([], False) \<noteq> (Inr ([], False) :: error + news list \<times> bool) \<and>
                (trace ((retried 1 ^^ 3) init_session) =
                   trace ((retried 1 ^^ k) init_session) @ [Probe 1] \<or>
                 trace ((retried 1 ^^ 3) init_session) =
                   trace ((retried 1 ^^ k) init_session) @ [Probe 1, Extract 1])"
    by blast
  from fin have "k = 3" by (cases "k = 3") simp_all
  with fin have "crawl_pages is_complete_news is_duplicate_news failing_crawler ''news-events'' 1 []
                  init_session = (Inr [], (retried 1 ^^ 3) init_session)" by simp
  moreover have "trace ((retried 1 ^^ 3) init_session) =
     [Probe 1, Extract 1, Sleep 5, Probe 1, Extract 1, Sleep 5, Probe 1, Extract 1, Sleep 5]"
    unfolding trace_retried_pow by (simp add: init_session_def numeral_3_eq_3)
  ultimately show ?thesis by simp
qed

section \<open>A page whose records are all rejected\<close>

lemma rejecting_fetch:
  assumes "even (calls st)"
  shows "fetch_and_process_page ic idup rejecting_crawler p rk st =
           (Inr ([], False), extracted p st)"
  using assms
  by (simp add: fetch_eq after_probe_def rejecting_crawler_def process_news_Cons
      process_news_Nil accepted_def extracted_def)

text \<open>
  C5, as the claim states it, fails: a page whose extraction returns one record that the
  loop rejects is fetched three times, with the waits between, before the session stops.
\<close>

theorem empty_valid_batch_counterexample:
  "fetch_and_process_page is_complete_news is_duplicate_news rejecting_crawler 1 REQUIRED_KEYS
     init_session = (Inr ([], False), extracted 1 init_session) \<and>
   trace (snd (crawl_pages is_complete_news is_duplicate_news rejecting_crawler ''news-events''
                 1 [] init_session)) =
     [Probe 1, Extract 1, Sleep 5, Probe 1, Extract 1, Sleep 5, Probe 1, Extract 1, Sleep 5]"
proof -
  have e: "even (calls ((retried 1 ^^ i) init_session))" for i
    by (simp add: calls_retried_pow init_session_def)
  have "fetch_with_retries is_complete_news is_duplicate_news rejecting_crawler 1 3 init_session =
      fetch_with_retries is_complete_news is_duplicate_news rejecting_crawler 1 (3 - 3)
        ((retried 1 ^^ 3) init_session)"
    by (rule retries_forward) (simp_all add: rejecting_fetch e)
  then have "crawl_pages is_complete_news is_duplicate_news rejecting_crawler ''news-events''
                 1 [] init_session = (Inr [], (retried 1 ^^ 3) init_session)"
    by (intro crawl_pages_stop [where news = "[]" and flag = False]) simp_all
  moreover have "fetch_and_process_page is_complete_news is_duplicate_news rejecting_crawler 1
      REQUIRED_KEYS init_session = (Inr ([], False), extracted 1 init_session)"
    by (rule rejecting_fetch) (simp add: init_session_def)
  moreover have "trace ((retried 1 ^^ 3) init_session) =
     [Probe 1, Extract 1, Sleep 5, Probe 1, Extract 1, Sleep 5, Probe 1, Extract 1, Sleep 5]"
    unfolding trace_retried_pow by (simp add: init_session_def numeral_3_eq_3)
  ultimately show ?thesis by simp
qed

text \<open>
  C5, amended. If the fetch of a page returns items and every one of them is rejected, the
  fetch reports the same outcome as a failed fetch (no news, no flag) and leaves the seen
  titles as they were; the retry loop waits five seconds and fetches the page again while
  attempts are left; the session stops when the retry loop of that page ends with
  nothing.
\<close>

theorem empty_valid_batch_is_retried:
  assumes "crawler (calls st) = Returns probe"
    and "\<not> (success probe \<and> contains ''No Results Found'' (cleaned_html probe))"
    and "crawler (Suc (calls st)) = Returns result"
    and "success result"
    and "parse_extracted (extracted_content result) = Some (JDict err d # rest)"
    and "fst (process_news ic idup REQUIRED_KEYS (JDict err d # rest) (seen_names st)) = []"
  shows "fetch_and_process_page ic idup crawler p REQUIRED_KEYS st =
           (Inr ([], False), extracted p st) \<and>
         fetch_with_retries ic idup crawler p (Suc n) st =
           fetch_with_retries ic idup crawler p n (retried p st) \<and>
         (\<forall>st'. fetch_with_retries ic idup crawler p 3 st = (Inr ([], False), st') \<longrightarrow>
            crawl_pages ic idup crawler topic p all_news st = (Inr all_news, st'))"
proof -
  let ?res = "process_news ic idup REQUIRED_KEYS (JDict err d # rest) (seen_names st)"
  from assms(6) have "snd ?res = seen_names st"
    using process_news_seen [of ic idup REQUIRED_KEYS "JDict err d # rest" "seen_names st"]
    by simp
  with assms have f: "fetch_and_process_page ic idup crawler p REQUIRED_KEYS st =
           (Inr ([], False), extracted p st)"
    by (simp add: fetch_eq after_probe_def extracted_def)
  then have r: "fetch_with_retries ic idup crawler p (Suc n) st =
           fetch_with_retries ic idup crawler p n (retried p st)"
    by (simp add: fetch_with_retries_Suc)
  have c: "crawl_pages ic idup crawler topic p all_news st = (Inr all_news, st')"
    if "fetch_with_retries ic idup crawler p 3 st = (Inr ([], False), st')" for st'
    using that by (rule crawl_pages_stop) simp
  from f r c show ?thesis by blast
qed

theorem empty_valid_batch_is_retried_witness:
  "fetch_with_retries is_complete_news is_duplicate_news rejecting_crawler 1 (Suc 2)
     init_session =
   fetch_with_retries is_complete_news is_duplicate_news rejecting_crawler 1 2
     (retried 1 init_session) \<and>
   fetch_and_process_page is_complete_news is_duplicate_news rejecting_crawler 1 REQUIRED_KEYS
     init_session = (Inr ([], False), extracted 1 init_session)"
proof -
  have h1: "rejecting_crawler (calls init_session) =
      Returns \<lparr>success = True, cleaned_html = ''<html>'', extracted_content = NoContent\<rparr>"
    by (simp add: rejecting_crawler_def init_session_def)
  have h2: "\<not> (success \<lparr>success = True, cleaned_html = ''<html>'',
                 extracted_content = NoContent\<rparr> \<and>
      contains ''No Results Found'' (cleaned_html \<lparr>success = True, cleaned_html = ''<html>'',
                 extracted_content = NoContent\<rparr>))"
    by simp
  have h3: "rejecting_crawler (Suc (calls init_session)) =
      Returns \<lparr>success = True, cleaned_html = [],
                    extracted_content = Parsed (JList [JDict True [''title'' \<mapsto> ''T'']])\<rparr>"
    by (simp add: rejecting_crawler_def init_session_def)
  have h4: "success \<lparr>success = True, cleaned_html = [],
                    extracted_content = Parsed (JList [JDict True [''title'' \<mapsto> ''T'']])\<rparr>"
    by simp
  have h5: "parse_extracted (extracted_content \<lparr>success = True, cleaned_html = [],
                    extracted_content = Parsed (JList [JDict True [''title'' \<mapsto> ''T'']])\<rparr>) =
      Some (JDict True [''title'' \<mapsto> ''T''] # [])"
    by simp
  have h6: "fst (process_news is_complete_news is_duplicate_news REQUIRED_KEYS
      (JDict True [''title'' \<mapsto> ''T''] # []) (seen_names init_session)) = []"
    by (simp add: process_news_Cons process_news_Nil accepted_def)
  from empty_valid_batch_is_retried [OF h1 h2 h3 h4 h5 h6, of 1 2 "''news-events''" "[]"]
  show ?thesis by simp
qed

section \<open>The page cap\<close>

lemma article_accepted:
  "replicate (Suc k) CHR ''a'' \<notin> trim ` seen \<Longrightarrow>
   process_news is_complete_news is_duplicate_news REQUIRED_KEYS [JDict False (article k)] seen =
     ([article k], insert (replicate (Suc k) CHR ''a'') seen)"
  by (simp add: process_news_Cons process_news_Nil accepted_def article_def
      is_complete_news_def is_duplicate_news_def REQUIRED_KEYS_def truthy_def dict_get_def
      title_of_def fun_upd_twist trim_replicate_a [of "Suc k", simplified])

lemma fresh_fetch:
  assumes "calls st = 2 * k" and "replicate (Suc k) CHR ''a'' \<notin> trim ` seen_names st"
  shows "fetch_and_process_page is_complete_news is_duplicate_news fresh_crawler p
           REQUIRED_KEYS st =
         (Inr ([article k], False),
          (extracted p st)\<lparr>seen_names := insert (replicate (Suc k) CHR ''a'') (seen_names st)\<rparr>)"
  using assms
  by (simp add: fetch_eq after_probe_def fresh_crawler_def article_accepted)

lemma fresh_retries:
  assumes "calls st = 2 * k" and "replicate (Suc k) CHR ''a'' \<notin> trim ` seen_names st"
  shows "fetch_with_retries is_complete_news is_duplicate_news fresh_crawler p 3 st =
         (Inr ([article k], False),
          (extracted p st)\<lparr>seen_names := insert (replicate (Suc k) CHR ''a'') (seen_names st)\<rparr>)"
  using fresh_fetch [OF assms, of p]
  by (simp add: eval_nat_numeral fetch_with_retries_Suc)

lemma fresh_pages:
  assumes "1 \<le> p" and "p \<le> 21"
    and "calls st = 2 * nat (p - 1)"
    and "\<forall>t \<in> seen_names st. length t < nat p"
  shows "\<exists>st'. crawl_pages is_complete_news is_duplicate_news fresh_crawler topic p all_news st =
                 (Inr (all_news @ map (\<lambda>q. article (nat (q - 1))) [p..21]), st') \<and>
               trace st' = trace st @
                 concat (map (\<lambda>q. page_events topic q @ [Sleep 2]) [p..20]) @
                 page_events topic 21"
  using assms
proof (induction "nat (21 - p)" arbitrary: p st all_news)
  case 0
  then have p: "p = 21" by simp
  have "nat p \<le> Suc (nat (p - 1))" using p by simp
  from longer_title_unseen [OF "0.prems"(4) this]
  have fresh: "replicate (Suc (nat (p - 1))) CHR ''a'' \<notin> trim ` seen_names st" .
  let ?st1 = "(extracted p st)\<lparr>seen_names :=
      insert (replicate (Suc (nat (p - 1))) CHR ''a'') (seen_names st)\<rparr>"
  from fresh_retries [OF "0.prems"(3) fresh, of p]
  have "crawl_pages is_complete_news is_duplicate_news fresh_crawler topic p all_news st =
          (Inr (all_news @ [article (nat (p - 1))]), published topic [article (nat (p - 1))] ?st1)"
    using p by (simp add: crawl_pages_step)
  moreover have "trace (published topic [article (nat (p - 1))] ?st1) =
      trace st @ page_events topic 21"
    using p by (simp add: published_def extracted_def page_events_def)
  ultimately show ?case using p by simp
next
  case (Suc n)
  then have p: "p < 21" "1 \<le> p" by simp_all
  have "nat p \<le> Suc (nat (p - 1))" using p by linarith
  from longer_title_unseen [OF Suc.prems(4) this]
  have fresh: "replicate (Suc (nat (p - 1))) CHR ''a'' \<notin> trim ` seen_names st" .
  let ?st1 = "(extracted p st)\<lparr>seen_names :=
      insert (replicate (Suc (nat (p - 1))) CHR ''a'') (seen_names st)\<rparr>"
  let ?st2 = "slept 2 (published topic [article (nat (p - 1))] ?st1)"
  from fresh_retries [OF Suc.prems(3) fresh, of p]
  have step: "crawl_pages is_complete_news is_duplicate_news fresh_crawler topic p all_news st =
      crawl_pages is_complete_news is_duplicate_news fresh_crawler topic (p + 1)
        (all_news @ [article (nat (p - 1))]) ?st2"
    using p by (simp add: crawl_pages_step)
  have n: "n = nat (21 - (p + 1))" using Suc.hyps(2) by simp
  have c: "calls ?st2 = 2 * nat (p + 1 - 1)"
    using Suc.prems(3) p by (simp add: slept_def published_def extracted_def nat_diff_distrib)
  have s: "\<forall>t \<in> seen_names ?st2. length t < nat (p + 1)"
    using Suc.prems(4) p by (auto simp: slept_def published_def extracted_def)
  from p have b: "1 \<le> p + 1" "p + 1 \<le> 21" by simp_all
  from Suc.hyps(1) [OF n b c s, of "all_news @ [article (nat (p - 1))]"]
  obtain st' where r: "crawl_pages is_complete_news is_duplicate_news fresh_crawler topic (p + 1)
        (all_news @ [article (nat (p - 1))]) ?st2 =
        (Inr ((all_news @ [article (nat (p - 1))]) @ map (\<lambda>q. article (nat (q - 1))) [p + 1..21]), st')"
    and t: "trace st' = trace ?st2 @
                 concat (map (\<lambda>q. page_events topic q @ [Sleep 2]) [p + 1..20]) @
                 page_events topic 21"
    by blast
  from p have u1: "[p..21] = p # [p + 1..21]" and u2: "[p..20] = p # [p + 1..20]"
    by (simp_all add: upto_rec1)
  from step r have "crawl_pages is_complete_news is_duplicate_news fresh_crawler topic p all_news st =
                 (Inr (all_news @ map (\<lambda>q. article (nat (q - 1))) [p..21]), st')"
    by (simp add: u1)
  moreover from t have "trace st' = trace st @
                 concat (map (\<lambda>q. page_events topic q @ [Sleep 2]) [p..20]) @
                 page_events topic 21"
    by (simp add: u2 slept_def published_def extracted_def page_events_def)
  ultimately show ?case by blast
qed

text \<open>
  What the cap does hold for every session: no page below the first or above 21 is ever
  probed or extracted.
\<close>

lemma retries_trace:
  assumes "fetch_with_retries ic idup crawler p n st = (r, st')"
  shows "\<exists>tr. trace st' = trace st @ tr \<and> set tr \<subseteq> {Probe p, Extract p, Sleep 5}"
proof -
  from retries_char [OF assms] obtain k where k: "k \<le> n"
    and fin: "if k = n then r = Inr ([], False) \<and> st' = (retried p ^^ n) st
            else fetch_and_process_page ic idup crawler p REQUIRED_KEYS ((retried p ^^ k) st)
                   = (r, st') \<and> r \<noteq> Inr ([], False)"
    by blast
  let ?tr = "concat (replicate k [Probe p, Extract p, Sleep 5])"
  have sub: "set ?tr \<subseteq> {Probe p, Extract p, Sleep 5}"
    by (induction k) auto
  show ?thesis
  proof (cases "k = n")
    case True
    with fin have "trace st' = trace st @ ?tr" by (simp add: trace_retried_pow)
    with sub show ?thesis by blast
  next
    case False
    with fin have f: "fetch_and_process_page ic idup crawler p REQUIRED_KEYS
        ((retried p ^^ k) st) = (r, st')" by simp
    from f have "trace st' = trace ((retried p ^^ k) st) @ [Probe p] \<or>
                 trace st' = trace ((retried p ^^ k) st) @ [Probe p, Extract p]"
      by (cases rule: fetch_cases) (auto simp: probed_def extracted_def)
    then have "trace st' = trace st @ (?tr @ [Probe p]) \<or>
               trace st' = trace st @ (?tr @ [Probe p, Extract p])"
      by (simp add: trace_retried_pow)
    moreover have "set (?tr @ [Probe p]) \<subseteq> {Probe p, Extract p, Sleep 5}"
      "set (?tr @ [Probe p, Extract p]) \<subseteq> {Probe p, Extract p, Sleep 5}"
      using sub by auto
    ultimately show ?thesis by blast
  qed
qed

lemma crawl_pages_cap:
  assumes "crawl_pages ic idup crawler topic p all_news st = (r, st')"
  shows "\<exists>tr. trace st' = trace st @ tr \<and>
           (\<forall>q. Probe q \<in> set tr \<or> Extract q \<in> set tr \<longrightarrow> p \<le> q \<and> q \<le> max p 21)"
  using assms
proof (induction ic idup crawler topic p all_news st arbitrary: r st' rule: crawl_pages.induct)
  case (1 ic idup crawler topic p all_news st)
  obtain r1 st1 where f: "fetch_with_retries ic idup crawler p 3 st = (r1, st1)"
    by (cases "fetch_with_retries ic idup crawler p 3 st")
  from retries_trace [OF f] obtain tr1 where tr1: "trace st1 = trace st @ tr1"
    and sub: "set tr1 \<subseteq> {Probe p, Extract p, Sleep 5}" by blast
  have here: "\<forall>q. Probe q \<in> set tr1 \<or> Extract q \<in> set tr1 \<longrightarrow> p \<le> q \<and> q \<le> max p 21"
    using sub by auto
  show ?case
  proof (cases r1)
    case (Inl e)
    with f "1.prems" have "st' = st1" by (simp add: crawl_pages_raise)
    with tr1 here show ?thesis by blast
  next
    case (Inr b)
    obtain news flag where b: "b = (news, flag)" by (cases b)
    show ?thesis
    proof (cases "flag \<or> news = []")
      case True
      from f Inr b have "fetch_with_retries ic idup crawler p 3 st = (Inr (news, flag), st1)"
        by simp
      from crawl_pages_stop [OF this True, of topic all_news] "1.prems" have "st' = st1"
        by simp
      with tr1 here show ?thesis by blast
    next
      case False
      with f Inr b have f': "fetch_with_retries ic idup crawler p 3 st = (Inr (news, False), st1)"
        and ne: "news \<noteq> []" by simp_all
      note step = crawl_pages_step [OF f' ne, of topic all_news]
      show ?thesis
      proof (cases "p > 20")
        case True
        with step "1.prems" have "trace st' = trace st @ (tr1 @ [Publish news topic])"
          using tr1 by (auto simp: published_def)
        moreover have "\<forall>q. Probe q \<in> set (tr1 @ [Publish news topic]) \<or>
            Extract q \<in> set (tr1 @ [Publish news topic]) \<longrightarrow> p \<le> q \<and> q \<le> max p 21"
          using here by auto
        ultimately show ?thesis by blast
      next
        case p: False
        let ?st2 = "slept 2 (published topic news st1)"
        from p step "1.prems" have rec:
          "crawl_pages ic idup crawler topic (p + 1) (all_news @ news) ?st2 = (r, st')"
          by simp
        have st2: "?st2 = (st1\<lparr>trace := trace st1 @ [Publish news topic]\<rparr>)
                          \<lparr>trace := trace (st1\<lparr>trace := trace st1 @ [Publish news topic]\<rparr>) @ [Sleep 2]\<rparr>"
          by (simp add: slept_def published_def)
        from "1.IH" [OF f' [symmetric] refl refl _ ne refl, of r st'] p rec
        obtain tr2 where tr2: "trace st' = trace ?st2 @ tr2"
          and later: "\<forall>q. Probe q \<in> set tr2 \<or> Extract q \<in> set tr2 \<longrightarrow>
                         p + 1 \<le> q \<and> q \<le> max (p + 1) 21"
          unfolding st2 by auto
        from tr1 tr2 have "trace st' = trace st @ (tr1 @ [Publish news topic, Sleep 2] @ tr2)"
          by (simp add: slept_def published_def)
        moreover have "\<forall>q. Probe q \<in> set (tr1 @ [Publish news topic, Sleep 2] @ tr2) \<or>
            Extract q \<in> set (tr1 @ [Publish news topic, Sleep 2] @ tr2) \<longrightarrow>
            p \<le> q \<and> q \<le> max p 21"
          using here later p by auto
        ultimately show ?thesis by blast
      qed
    qed
  qed
qed

lemma no_page_beyond_21:
  assumes "crawl_pages ic idup crawler topic 1 [] init_session = (r, st')"
    and "Probe q \<in> set (trace st') \<or> Extract q \<in> set (trace st')"
  shows "1 \<le> q \<and> q \<le> 21"
  using crawl_pages_cap [OF assms(1)] assms(2) by (auto simp: init_session_def)

text \<open>
  C3. For a source whose every page gives a new valid record, the session sends pages 1
  to 21: the test \<^verbatim>\<open>page_number > 20\<close> comes after the page has been fetched and sent,
  so page 21 is fetched, although the claim has the session stop after page 20.
\<close>

theorem page_cap_admits_page_21:
  "fst (crawl_pages is_complete_news is_duplicate_news fresh_crawler ''news-events'' 1 []
          init_session) = Inr (map (\<lambda>q. article (nat (q - 1))) [1..21]) \<and>
   trace (snd (crawl_pages is_complete_news is_duplicate_news fresh_crawler ''news-events'' 1 []
          init_session)) =
     concat (map (\<lambda>q. page_events ''news-events'' q @ [Sleep 2]) [1..20]) @
     page_events ''news-events'' 21"
proof -
  have "\<exists>st'. crawl_pages is_complete_news is_duplicate_news fresh_crawler ''news-events'' 1 []
          init_session = (Inr ([] @ map (\<lambda>q. article (nat (q - 1))) [1..21]), st') \<and>
        trace st' = trace init_session @
          concat (map (\<lambda>q. page_events ''news-events'' q @ [Sleep 2]) [1..20]) @
          page_events ''news-events'' 21"
    by (rule fresh_pages) (simp_all add: init_session_def)
  then show ?thesis by (auto simp: init_session_def)
qed

theorem page_21_is_fetched:
  "Probe 21 \<in> set (trace (snd (crawl_pages is_complete_news is_duplicate_news fresh_crawler
                                 ''news-events'' 1 [] init_session)))"
  using page_cap_admits_page_21 by (simp add: page_events_def)

section \<open>What reaches the sink\<close>

lemma accepted_iff:
  "accepted ic idup rk seen item \<longleftrightarrow>
     valid_item ic rk item \<and> \<not> idup (title_of (cleaned item)) seen"
  by (cases item) (simp_all add: accepted_def valid_item_def title_of_def)

lemma sink_records_append [simp]:
  "sink_records (xs @ ys) = sink_records xs @ sink_records ys"
  by (simp add: sink_records_def)

lemma sink_records_Nil [simp]: "sink_records [] = []"
  by (simp add: sink_records_def)

lemma sink_records_Cons [simp]: "sink_records (e # es) = batch_of e @ sink_records es"
  by (simp add: sink_records_def)

lemma sink_probed [simp]: "sink_records (trace (probed p st)) = sink_records (trace st)"
  by (simp add: probed_def)

lemma sink_extracted [simp]: "sink_records (trace (extracted p st)) = sink_records (trace st)"
  by (simp add: extracted_def)

lemma sink_retried [simp]: "sink_records (trace (retried p st)) = sink_records (trace st)"
  by (simp add: retried_def slept_def)

lemma sink_retried_pow [simp]:
  "sink_records (trace ((retried p ^^ k) st)) = sink_records (trace st)"
  by (induction k arbitrary: st) (simp_all add: funpow_swap1)

lemma sink_published [simp]:
  "sink_records (trace (published topic news st)) = sink_records (trace st) @ news"
  by (simp add: published_def)

lemma sink_slept [simp]: "sink_records (trace (slept k st)) = sink_records (trace st)"
  by (simp add: slept_def)

lemma sink_init [simp]: "sink_records (trace init_session) = []"
  by (simp add: init_session_def)

lemma seen_probed [simp]: "seen_names (probed p st) = seen_names st"
  by (simp add: probed_def)

lemma seen_extracted [simp]: "seen_names (extracted p st) = seen_names st"
  by (simp add: extracted_def)

lemma seen_published [simp]: "seen_names (published topic news st) = seen_names st"
  by (simp add: published_def)

lemma seen_slept [simp]: "seen_names (slept k st) = seen_names st"
  by (simp add: slept_def)

lemma process_news_complete:
  "\<forall>n \<in> set (fst (process_news ic idup rk items seen)). ic n rk"
proof (induction items arbitrary: seen)
  case Nil
  show ?case by (simp add: process_news_Nil)
next
  case (Cons item rest)
  show ?case
  proof (cases "accepted ic idup rk seen item")
    case True
    with Cons.IH [of "insert (title_of (cleaned item)) seen"] accepted_complete [OF True]
    show ?thesis by (simp add: process_news_Cons)
  next
    case False
    with Cons.IH [of seen] show ?thesis by (simp add: process_news_Cons)
  qed
qed

text \<open>What a retry loop can end with.\<close>

lemma retries_cases [consumes 1, case_names empty_handed raised batch]:
  assumes "fetch_with_retries ic idup crawler p n st = (r, st')"
  obtains
    (empty_handed) flag where "r = Inr ([], flag)" "seen_names st' = seen_names st"
      "sink_records (trace st') = sink_records (trace st)"
  | (raised) e where "r = Inl e" "seen_names st' = seen_names st"
      "sink_records (trace st') = sink_records (trace st)"
  | (batch) items where
      "fst (process_news ic idup REQUIRED_KEYS items (seen_names st)) \<noteq> []"
      "r = Inr (fst (process_news ic idup REQUIRED_KEYS items (seen_names st)), False)"
      "seen_names st' = snd (process_news ic idup REQUIRED_KEYS items (seen_names st))"
      "sink_records (trace st') = sink_records (trace st)"
proof -
  from retries_char [OF assms] obtain k where k: "k \<le> n"
    and fin: "if k = n then r = Inr ([], False) \<and> st' = (retried p ^^ n) st
            else fetch_and_process_page ic idup crawler p REQUIRED_KEYS ((retried p ^^ k) st)
                   = (r, st') \<and> r \<noteq> Inr ([], False)"
    by blast
  show ?thesis
  proof (cases "k = n")
    case True
    with fin have "r = Inr ([], False)" "st' = (retried p ^^ n) st" by simp_all
    then show ?thesis by (intro empty_handed [of False]) (simp_all add: seen_retried_pow)
  next
    case False
    with fin have f: "fetch_and_process_page ic idup crawler p REQUIRED_KEYS
        ((retried p ^^ k) st) = (r, st')" by simp
    from f show ?thesis
    proof (cases rule: fetch_cases)
      case marker
      then show ?thesis by (intro empty_handed [of True]) (simp_all add: seen_retried_pow)
    next
      case (raised e)
      then show ?thesis by (intro that(2) [of e]) (auto simp: seen_retried_pow)
    next
      case transient
      then show ?thesis by (intro empty_handed [of False]) (simp_all add: seen_retried_pow)
    next
      case (batch items)
      then show ?thesis by (intro that(3) [of items]) (simp_all add: seen_retried_pow)
    qed
  qed
qed

lemma crawl_pages_valid:
  assumes "crawl_pages ic idup crawler topic p all_news st = (r, st')"
    and "\<forall>n\<in>set (sink_records (trace st)). ic n REQUIRED_KEYS \<and> title_of n \<noteq> []"
    and "\<forall>n\<in>set all_news. ic n REQUIRED_KEYS \<and> title_of n \<noteq> []"
  shows "(\<forall>n\<in>set (sink_records (trace st')). ic n REQUIRED_KEYS \<and> title_of n \<noteq> []) \<and>
         (\<forall>x. r = Inr x \<longrightarrow> (\<forall>n\<in>set x. ic n REQUIRED_KEYS \<and> title_of n \<noteq> []))"
  using assms
proof (induction ic idup crawler topic p all_news st arbitrary: r st' rule: crawl_pages.induct)
  case (1 ic idup crawler topic p all_news st)
  obtain r1 st1 where f: "fetch_with_retries ic idup crawler p 3 st = (r1, st1)"
    by (cases "fetch_with_retries ic idup crawler p 3 st")
  from f show ?case
  proof (cases rule: retries_cases)
    case (empty_handed flag)
    with f have "crawl_pages ic idup crawler topic p all_news st = (Inr all_news, st1)"
      by (intro crawl_pages_stop [where news = "[]" and flag = flag]) auto
    with "1.prems" empty_handed show ?thesis by auto
  next
    case (raised e)
    with f have "crawl_pages ic idup crawler topic p all_news st = (Inl e, st1)"
      by (intro crawl_pages_raise) simp
    with "1.prems" raised show ?thesis by auto
  next
    case (batch items)
    let ?news = "fst (process_news ic idup REQUIRED_KEYS items (seen_names st))"
    have good: "\<forall>n\<in>set ?news. ic n REQUIRED_KEYS \<and> title_of n \<noteq> []"
      using process_news_complete [of ic idup REQUIRED_KEYS items "seen_names st"]
        process_news_nonempty_titles [of ic idup REQUIRED_KEYS items "seen_names st"]
      by blast
    from f batch have f': "fetch_with_retries ic idup crawler p 3 st = (Inr (?news, False), st1)"
      by simp
    note step = crawl_pages_step [OF f' batch(1), of topic all_news]
    show ?thesis
    proof (cases "p > 20")
      case True
      with step "1.prems"(1) have "r = Inr (all_news @ ?news)" "st' = published topic ?news st1"
        by simp_all
      with "1.prems"(2,3) good batch(4) show ?thesis by auto
    next
      case False
      let ?st2 = "slept 2 (published topic ?news st1)"
      from False step "1.prems"(1) have rec:
        "crawl_pages ic idup crawler topic (p + 1) (all_news @ ?news) ?st2 = (r, st')"
        by simp
      have s2: "\<forall>n\<in>set (sink_records (trace ?st2)). ic n REQUIRED_KEYS \<and> title_of n \<noteq> []"
        using "1.prems"(2) good batch(4) by auto
      have a2: "\<forall>n\<in>set (all_news @ ?news). ic n REQUIRED_KEYS \<and> title_of n \<noteq> []"
        using "1.prems"(3) good by auto
      have st2: "?st2 = (st1\<lparr>trace := trace st1 @ [Publish ?news topic]\<rparr>)
                          \<lparr>trace := trace (st1\<lparr>trace := trace st1 @ [Publish ?news topic]\<rparr>) @ [Sleep 2]\<rparr>"
        by (simp add: slept_def published_def)
      from "1.IH" [OF f' [symmetric] refl refl _ batch(1) refl, of r st'] False rec s2 a2
      show ?thesis unfolding st2 by simp
    qed
  qed
qed

lemma dom_format_item: "dom (format_item item) = set REQUIRED_KEYS"
  by (auto simp: format_item_def REQUIRED_KEYS_def split: if_splits)

lemma scraper_sink_valid:
  "\<forall>n\<in>set (sink_records (trace (snd (crawl_scraper_source ic idup env crawler source_name
        source_config)))). ic n REQUIRED_KEYS \<and> title_of n \<noteq> []"
proof -
  let ?P = "\<lambda>st. \<forall>n\<in>set (sink_records (trace st)). ic n REQUIRED_KEYS \<and> title_of n \<noteq> []"
  let ?run = "crawl_scraper_source ic idup env crawler source_name source_config"
  obtain r st where run:
    "crawl_pages ic idup crawler (kafka_topic_of env) 1 [] init_session = (r, st)"
    by (cases "crawl_pages ic idup crawler (kafka_topic_of env) 1 [] init_session")
  from crawl_pages_valid [OF run] have st: "?P st"
    and res: "\<And>x. r = Inr x \<Longrightarrow> \<forall>n\<in>set x. ic n REQUIRED_KEYS \<and> title_of n \<noteq> []"
    by simp_all
  show "?P (snd ?run)"
  proof (cases "\<exists>key_env m b c. source_config ''gemini_key_env'' = Some key_env \<and>
      truthy (env key_env) \<and> source_config ''model'' = Some m \<and>
      source_config ''base_url'' = Some b \<and> source_config ''css_selector'' = Some c")
    case True
    then obtain key_env m b c where c: "source_config ''gemini_key_env'' = Some key_env"
      "truthy (env key_env)" "source_config ''model'' = Some m"
      "source_config ''base_url'' = Some b" "source_config ''css_selector'' = Some c"
      by blast
    show ?thesis
    proof (cases r)
      case (Inl e)
      with c run have "snd ?run = st" by (simp add: crawl_scraper_source_def)
      with st show ?thesis by simp
    next
      case (Inr all_news)
      show ?thesis
      proof (cases "all_news = []")
        case True
        with Inr c run have "snd ?run = st" by (simp add: crawl_scraper_source_def)
        with st show ?thesis by simp
      next
        case False
        with Inr c run have "snd ?run =
            st\<lparr>trace := trace st @ [Snapshot all_news (source_name @ ''_news.csv'')]\<rparr>"
          by (simp add: crawl_scraper_source_def)
        with st res [OF Inr] show ?thesis by auto
      qed
    qed
  next
    case False
    have "snd ?run = init_session"
    proof (cases "source_config ''gemini_key_env''")
      case None
      then show ?thesis by (simp add: crawl_scraper_source_def)
    next
      case (Some key_env)
      with False have "\<not> truthy (env key_env) \<or> source_config ''model'' = None \<or>
          source_config ''base_url'' = None \<or> source_config ''css_selector'' = None"
        by auto
      with Some show ?thesis by (auto simp: crawl_scraper_source_def)
    qed
    then show ?thesis by simp
  qed
qed

lemma api_runs:
  "sink_records (snd (crawl_api_source env api source_name source_config)) = [] \<or>
   (\<exists>raw key. sink_records (snd (crawl_api_source env api source_name source_config)) =
      process_newsdata_with_gemini raw key @ process_newsdata_with_gemini raw key)"
proof (cases "source_config ''gemini_key_env''")
  case None
  then show ?thesis by (simp add: crawl_api_source_def)
next
  case (Some key_env)
  show ?thesis
  proof (cases "env ''NEWSDATA_API_KEY''")
    case None
    with Some show ?thesis by (simp add: crawl_api_source_def)
  next
    case api_key: (Some api_key)
    show ?thesis
    proof (cases "env key_env")
      case None
      with Some api_key show ?thesis by (simp add: crawl_api_source_def)
    next
      case gemini: (Some gemini_key)
      let ?news = "process_newsdata_with_gemini (fetch_newsdata_api (api api_key)) gemini_key"
      have run: "crawl_api_source env api source_name source_config =
         (if api_key = [] then (Inr [], [])
          else if gemini_key = [] then (Inr [], [])
          else if ?news \<noteq> []
               then (Inr ?news, [ApiRequest, Publish ?news (kafka_topic_of env),
                                 Snapshot ?news (source_name @ ''_news.csv'')])
               else (Inr ?news, [ApiRequest]))"
        using Some api_key gemini by (simp add: crawl_api_source_def Let_def)
      show ?thesis
      proof (cases "api_key = [] \<or> gemini_key = [] \<or> ?news = []")
        case True
        with run show ?thesis by auto
      next
        case False
        with run have "sink_records (snd (crawl_api_source env api source_name source_config)) =
            ?news @ ?news" by simp
        then show ?thesis by blast
      qed
    qed
  qed
qed

lemma api_items:
  "\<forall>n\<in>set (process_newsdata_with_gemini raw key). dom n = set REQUIRED_KEYS"
  by (simp add: process_newsdata_with_gemini_def format_items_map dom_format_item)

lemma api_sink_keys:
  "\<forall>n\<in>set (sink_records (snd (crawl_api_source env api source_name source_config))).
      dom n = set REQUIRED_KEYS"
proof (cases "sink_records (snd (crawl_api_source env api source_name source_config)) = []")
  case True
  then show ?thesis by simp
next
  case False
  with api_runs [of env api source_name source_config] obtain raw key where
    "sink_records (snd (crawl_api_source env api source_name source_config)) =
       process_newsdata_with_gemini raw key @ process_newsdata_with_gemini raw key"
    by blast
  with api_items [of raw key] show ?thesis by simp
qed

lemma fetch_batch_at:
  assumes "batch_at crawler st = Some items"
  shows "fetch_and_process_page ic idup crawler p rk st =
           (Inr (fst (process_news ic idup rk items (seen_names st)), False),
            (extracted p st)\<lparr>seen_names := snd (process_news ic idup rk items (seen_names st))\<rparr>)"
proof -
  from assms obtain probe where p: "crawler (calls st) = Returns probe"
    and nm: "\<not> (success probe \<and> contains ''No Results Found'' (cleaned_html probe))"
    by (auto simp: batch_at_def split: response.splits if_splits)
  from assms p nm obtain result where r: "crawler (Suc (calls st)) = Returns result"
    and ok: "success result"
    by (auto simp: batch_at_def split: response.splits if_splits)
  from assms p nm r ok obtain err d rest where
    "parse_extracted (extracted_content result) = Some (JDict err d # rest)"
    and "items = JDict err d # rest"
    by (auto simp: batch_at_def split: option.splits list.splits json.splits)
  with p nm r ok show ?thesis
    by (simp add: fetch_eq after_probe_def)
qed

lemma article_complete: "is_complete_news (article k) REQUIRED_KEYS"
  by (simp add: is_complete_news_def article_def REQUIRED_KEYS_def truthy_def)

lemma article_title: "title_of (article k) = replicate (Suc k) CHR ''a''"
  by (simp add: title_of_def article_def dict_get_def)

lemma article_cleaned: "cleaned (JDict False (article k)) = article k"
  by (simp add: article_def)

lemma article_valid: "valid_item is_complete_news REQUIRED_KEYS (JDict False (article k))"
  using article_complete [of k] article_title [of k] article_cleaned [of k]
  by (simp add: valid_item_def title_of_def)

text \<open>
  C1, as the claim states it, fails on the one-shot path: an item of the search API
  without a description is forwarded to the event stream and to the snapshot with an
  empty description.
\<close>

theorem api_record_counterexample:
  "sink_records (snd (crawl_api_source (getenv demo_world) (newsdata demo_world) ''feed''
     feed_config)) = [format_item [''title'' \<mapsto> ''A''], format_item [''title'' \<mapsto> ''A'']] \<and>
   format_item [''title'' \<mapsto> ''A''] ''description'' = Some [] \<and>
   \<not> required_fields_nonempty (format_item [''title'' \<mapsto> ''A''])"
proof -
  have a: "sink_records (snd (crawl_api_source (getenv demo_world) (newsdata demo_world) ''feed''
     feed_config)) = [format_item [''title'' \<mapsto> ''A''], format_item [''title'' \<mapsto> ''A'']]"
    by (simp add: crawl_api_source_def demo_world_def feed_config_def
        process_newsdata_with_gemini_def Let_def)
  have b: "format_item [''title'' \<mapsto> ''A''] ''description'' = Some []"
    by (simp add: format_item_def dict_get_def)
  have c: "\<not> required_fields_nonempty (format_item [''title'' \<mapsto> ''A''])"
    using b by (simp add: required_fields_nonempty_def REQUIRED_KEYS_def truthy_def)
  from a b c show ?thesis by blast
qed

text \<open>
  C1, amended. Every record that the paginated path forwards to the sink (event stream
  or snapshot) has passed the completeness check on the required keys and has a non-empty
  title, whatever the two helpers compute. Every record that the one-shot path forwards
  has exactly the five required keys; their values may be empty.
\<close>

theorem sink_records_checked:
  "(\<forall>n\<in>set (sink_records (trace (snd (crawl_scraper_source ic idup env crawler source_name
        source_config)))). ic n REQUIRED_KEYS \<and> title_of n \<noteq> []) \<and>
   (\<forall>n\<in>set (sink_records (snd (crawl_api_source env api source_name source_config))).
      dom n = set REQUIRED_KEYS)"
  by (intro conjI scraper_sink_valid api_sink_keys)

lemma scenario_batch:
  "batch_at scenario_crawler init_session =
     Some [JDict False (article 0), JDict False (article (Suc 0)), JDict False (article 0)]"
  by (simp add: batch_at_def scenario_crawler_def init_session_def)

lemma scenario_processed:
  "process_news is_complete_news is_duplicate_news REQUIRED_KEYS
     [JDict False (article 0), JDict False (article (Suc 0)), JDict False (article 0)] {} =
   ([article 0, article (Suc 0)], {''a'', ''aa''})"
  by (simp add: process_news_Cons process_news_Nil accepted_iff article_valid
      article_cleaned article_title is_duplicate_news_def trim_def whitespace_def
      insert_commute del: cleaned.simps)

lemma scenario_session:
  "crawl_pages is_complete_news is_duplicate_news scenario_crawler ''news-events'' 1 []
     init_session =
   (Inr [article 0, article (Suc 0)],
    probed 2 (slept 2 (published ''news-events'' [article 0, article (Suc 0)]
      ((extracted 1 init_session)\<lparr>seen_names := {''a'', ''aa''}\<rparr>))))"
proof -
  let ?st1 = "(extracted 1 init_session)\<lparr>seen_names := {''a'', ''aa''}\<rparr>"
  let ?st2 = "slept 2 (published ''news-events'' [article 0, article (Suc 0)] ?st1)"
  have "fetch_and_process_page is_complete_news is_duplicate_news scenario_crawler 1
          REQUIRED_KEYS init_session = (Inr ([article 0, article (Suc 0)], False), ?st1)"
    using fetch_batch_at [OF scenario_batch, of is_complete_news is_duplicate_news 1 REQUIRED_KEYS]
    by (simp add: scenario_processed init_session_def)
  then have r1: "fetch_with_retries is_complete_news is_duplicate_news scenario_crawler 1 3
      init_session = (Inr ([article 0, article (Suc 0)], False), ?st1)"
    by (simp add: eval_nat_numeral fetch_with_retries_Suc)
  have "fetch_and_process_page is_complete_news is_duplicate_news scenario_crawler 2
          REQUIRED_KEYS ?st2 = (Inr ([], True), probed 2 ?st2)"
    by (simp add: fetch_eq scenario_crawler_def slept_def published_def extracted_def
        init_session_def)
  then have r2: "fetch_with_retries is_complete_news is_duplicate_news scenario_crawler 2 3
      ?st2 = (Inr ([], True), probed 2 ?st2)"
    by (simp add: eval_nat_numeral fetch_with_retries_Suc)
  from crawl_pages_step [OF r1, of "''news-events''" "[]"]
    crawl_pages_stop [OF r2, of "''news-events''" "[article 0, article (Suc 0)]"]
  show ?thesis by simp
qed

lemma scenario_source:
  "crawl_scraper_source is_complete_news is_duplicate_news (getenv demo_world) scenario_crawler
     ''site'' site_config =
   (Inr [article 0, article (Suc 0)],
    (probed 2 (slept 2 (published ''news-events'' [article 0, article (Suc 0)]
      ((extracted 1 init_session)\<lparr>seen_names := {''a'', ''aa''}\<rparr>))))
    \<lparr>trace := trace (probed 2 (slept 2 (published ''news-events'' [article 0, article (Suc 0)]
        ((extracted 1 init_session)\<lparr>seen_names := {''a'', ''aa''}\<rparr>)))) @
      [Snapshot [article 0, article (Suc 0)] ''site_news.csv'']\<rparr>)"
proof -
  have t: "kafka_topic_of (getenv demo_world) = ''news-events''"
    by (simp add: kafka_topic_of_def demo_world_def dict_get_def)
  have k: "site_config ''gemini_key_env'' = Some ''K1''" "site_config ''model'' = Some ''mcnews''"
    "site_config ''base_url'' = Some ''http://site''" "site_config ''css_selector'' = Some ''div''"
    by (simp_all add: site_config_def)
  have g: "truthy (getenv demo_world ''K1'')"
    by (simp add: demo_world_def truthy_def)
  show ?thesis
    unfolding crawl_scraper_source_def t k
    using g by (simp add: scenario_session)
qed

theorem sink_records_checked_witness:
  "sink_records (trace (snd (crawl_scraper_source is_complete_news is_duplicate_news
      (getenv demo_world) scenario_crawler ''site'' site_config))) =
     [article 0, article (Suc 0), article 0, article (Suc 0)] \<and>
   is_complete_news (article 0) REQUIRED_KEYS \<and> title_of (article 0) \<noteq> [] \<and>
   dom (format_item [''title'' \<mapsto> ''A'']) = set REQUIRED_KEYS"
proof -
  have sink: "sink_records (trace (snd (crawl_scraper_source is_complete_news is_duplicate_news
      (getenv demo_world) scenario_crawler ''site'' site_config))) =
     [article 0, article (Suc 0), article 0, article (Suc 0)]"
    unfolding scenario_source
    by (simp add: probed_def slept_def published_def extracted_def init_session_def)
  have api: "sink_records (snd (crawl_api_source (getenv demo_world) (newsdata demo_world)
      ''feed'' feed_config)) = [format_item [''title'' \<mapsto> ''A''], format_item [''title'' \<mapsto> ''A'']]"
    by (simp add: crawl_api_source_def demo_world_def feed_config_def
        process_newsdata_with_gemini_def Let_def)
  note checked = sink_records_checked [where ic = is_complete_news and idup = is_duplicate_news
      and env = "getenv demo_world" and crawler = scenario_crawler and source_name = "''site''"
      and source_config = site_config]
  from checked sink have c: "is_complete_news (article 0) REQUIRED_KEYS \<and> title_of (article 0) \<noteq> []"
    by simp
  note checked_api = sink_records_checked [where env = "getenv demo_world" and
      api = "newsdata demo_world" and source_name = "''feed''" and source_config = feed_config]
  from checked_api api have "dom (format_item [''title'' \<mapsto> ''A'']) = set REQUIRED_KEYS"
    by simp
  with c sink show ?thesis by blast
qed

section \<open>Deduplication within a session\<close>

text \<open>The records that reach the event stream and the snapshot, event by event.\<close>

lemma stream_records_append [simp]:
  "stream_records (xs @ ys) = stream_records xs @ stream_records ys"
  by (simp add: stream_records_def)

lemma stream_records_Nil [simp]: "stream_records [] = []"
  by (simp add: stream_records_def)

lemma stream_records_Cons [simp]:
  "stream_records (e # es) = stream_batch e @ stream_records es"
  by (simp add: stream_records_def)

lemma snapshot_records_append [simp]:
  "snapshot_records (xs @ ys) = snapshot_records xs @ snapshot_records ys"
  by (simp add: snapshot_records_def)

lemma snapshot_records_Nil [simp]: "snapshot_records [] = []"
  by (simp add: snapshot_records_def)

lemma snapshot_records_Cons [simp]:
  "snapshot_records (e # es) = snapshot_batch e @ snapshot_records es"
  by (simp add: snapshot_records_def)

lemma stream_published [simp]:
  "stream_records (trace (published topic news st)) = stream_records (trace st) @ news"
  by (simp add: published_def)

lemma stream_slept [simp]: "stream_records (trace (slept k st)) = stream_records (trace st)"
  by (simp add: slept_def)

lemma snapshot_published [simp]:
  "snapshot_records (trace (published topic news st)) = snapshot_records (trace st)"
  by (simp add: published_def)

lemma snapshot_slept [simp]:
  "snapshot_records (trace (slept k st)) = snapshot_records (trace st)"
  by (simp add: slept_def)

lemma no_batches:
  assumes "set tr \<subseteq> {Probe p, Extract p, Sleep 5}"
  shows "stream_records tr = [] \<and> snapshot_records tr = []"
  using assms by (induction tr) auto

lemma retries_stream:
  assumes "fetch_with_retries ic idup crawler p n st = (r, st')"
  shows "stream_records (trace st') = stream_records (trace st) \<and>
         snapshot_records (trace st') = snapshot_records (trace st)"
proof -
  from retries_trace [OF assms] obtain tr where "trace st' = trace st @ tr"
    and "set tr \<subseteq> {Probe p, Extract p, Sleep 5}" by blast
  with no_batches [of tr p] show ?thesis by simp
qed

text \<open>
  The loop over the items with the trimming \<open>is_duplicate_news\<close>: the accepted records
  have titles that differ after trimming, from each other and from the titles seen before;
  the title of every valid item is among the seen titles afterwards, up to trimming; and
  every accepted record is a valid item of the batch.
\<close>

lemma process_news_distinct:
  "distinct (map trimmed_title (fst (process_news ic is_duplicate_news rk items seen))) \<and>
   trimmed_title ` set (fst (process_news ic is_duplicate_news rk items seen)) \<inter>
     trim ` seen = {}"
proof (induction items arbitrary: seen)
  case Nil
  show ?case by (simp add: process_news_Nil)
next
  case (Cons item rest)
  show ?case
  proof (cases "accepted ic is_duplicate_news rk seen item")
    case True
    let ?seen1 = "insert (title_of (cleaned item)) seen"
    let ?rest = "fst (process_news ic is_duplicate_news rk rest ?seen1)"
    from True have new: "trimmed_title (cleaned item) \<notin> trim ` seen"
      by (simp add: accepted_iff is_duplicate_news_def trimmed_title_def)
    from Cons.IH [of ?seen1] have d: "distinct (map trimmed_title ?rest)"
      and i: "trimmed_title ` set ?rest \<inter> trim ` ?seen1 = {}" by simp_all
    from i have i1: "trimmed_title (cleaned item) \<notin> trimmed_title ` set ?rest"
      and i2: "trimmed_title ` set ?rest \<inter> trim ` seen = {}"
      by (auto simp: trimmed_title_def)
    from True have "fst (process_news ic is_duplicate_news rk (item # rest) seen) =
        cleaned item # ?rest"
      by (simp add: process_news_Cons)
    with d i1 i2 new show ?thesis by simp
  next
    case False
    with Cons.IH [of seen] show ?thesis by (simp add: process_news_Cons)
  qed
qed

lemma process_news_seen_mono: "seen \<subseteq> snd (process_news ic idup rk items seen)"
  using process_news_seen [of ic idup rk items seen] by auto

lemma process_news_valid_seen:
  assumes "item \<in> set items" and "valid_item ic rk item"
  shows "trimmed_title (cleaned item) \<in>
           trim ` snd (process_news ic is_duplicate_news rk items seen)"
  using assms
proof (induction items arbitrary: seen)
  case Nil
  then show ?case by simp
next
  case (Cons x rest)
  show ?case
  proof (cases "accepted ic is_duplicate_news rk seen x")
    case acc: True
    let ?seen1 = "insert (title_of (cleaned x)) seen"
    from acc have run: "snd (process_news ic is_duplicate_news rk (x # rest) seen) =
        snd (process_news ic is_duplicate_news rk rest ?seen1)"
      by (simp add: process_news_Cons)
    show ?thesis
    proof (cases "item = x")
      case True
      have "title_of (cleaned x) \<in> snd (process_news ic is_duplicate_news rk rest ?seen1)"
        using process_news_seen_mono [of ?seen1 ic is_duplicate_news rk rest] by blast
      with True run show ?thesis by (simp add: trimmed_title_def)
    next
      case False
      with Cons.prems have "item \<in> set rest" by simp
      from Cons.IH [OF this Cons.prems(2), of ?seen1] run show ?thesis by simp
    qed
  next
    case rej: False
    then have run: "snd (process_news ic is_duplicate_news rk (x # rest) seen) =
        snd (process_news ic is_duplicate_news rk rest seen)"
      by (simp add: process_news_Cons)
    show ?thesis
    proof (cases "item = x")
      case True
      with rej Cons.prems(2) have "trimmed_title (cleaned item) \<in> trim ` seen"
        by (simp add: accepted_iff is_duplicate_news_def trimmed_title_def)
      with process_news_seen_mono [of seen ic is_duplicate_news rk rest] run
      show ?thesis by auto
    next
      case False
      with Cons.prems have "item \<in> set rest" by simp
      from Cons.IH [OF this Cons.prems(2), of seen] run show ?thesis by simp
    qed
  qed
qed

lemma process_news_origin:
  "\<forall>x\<in>set (fst (process_news ic idup rk items seen)).
     \<exists>item\<in>set items. valid_item ic rk item \<and> x = cleaned item"
proof (induction items arbitrary: seen)
  case Nil
  show ?case by (simp add: process_news_Nil)
next
  case (Cons item rest)
  show ?case
  proof (cases "accepted ic idup rk seen item")
    case True
    then have "valid_item ic rk item" by (simp add: accepted_iff)
    with Cons.IH [of "insert (title_of (cleaned item)) seen"] True
    show ?thesis by (auto simp: process_news_Cons)
  next
    case False
    with Cons.IH [of seen] show ?thesis by (auto simp: process_news_Cons)
  qed
qed

text \<open>A fetch that returns news got them from the batch at its state.\<close>

lemma fetch_news_batch:
  assumes "fetch_and_process_page ic idup crawler p rk st = (Inr (news, flag), st')"
    and "news \<noteq> []"
  shows "\<exists>items. batch_at crawler st = Some items \<and>
           news = fst (process_news ic idup rk items (seen_names st))"
proof (cases "batch_at crawler st")
  case (Some items)
  from fetch_batch_at [OF Some, of ic idup p rk] assms(1) Some show ?thesis by simp
next
  case None
  from assms(1) show ?thesis
  proof (cases rule: fetch_cases)
    case marker
    with assms(2) show ?thesis by simp
  next
    case (raised e)
    then show ?thesis by simp
  next
    case transient
    with assms(2) show ?thesis by simp
  next
    case (batch items)
    from None assms have False
      by (auto simp: fetch_eq after_probe_def batch_at_def
          split: response.splits if_splits option.splits list.splits json.splits)
    then show ?thesis ..
  qed
qed

text \<open>
  The pagination loop with the trimming \<open>is_duplicate_news\<close>: the records sent to the
  event stream have titles that differ after trimming, the seen titles are their titles,
  the list returned holds these records, and no snapshot is written.
\<close>

lemma crawl_pages_dedup:
  assumes "crawl_pages ic is_duplicate_news crawler topic p all_news st = (r, st')"
    and "stream_records (trace st) = all_news"
    and "distinct (map trimmed_title all_news)"
    and "seen_names st = title_of ` set all_news"
  shows "distinct (map trimmed_title (stream_records (trace st'))) \<and>
         seen_names st' = title_of ` set (stream_records (trace st')) \<and>
         (\<forall>x. r = Inr x \<longrightarrow> x = stream_records (trace st')) \<and>
         snapshot_records (trace st') = snapshot_records (trace st)"
  using assms
proof (induction ic "is_duplicate_news" crawler topic p all_news st arbitrary: r st'
    rule: crawl_pages.induct)
  case (1 ic crawler topic p all_news st)
  obtain r1 st1 where f: "fetch_with_retries ic is_duplicate_news crawler p 3 st = (r1, st1)"
    by (cases "fetch_with_retries ic is_duplicate_news crawler p 3 st")
  from retries_stream [OF f] have same: "stream_records (trace st1) = stream_records (trace st)"
    and snap: "snapshot_records (trace st1) = snapshot_records (trace st)" by simp_all
  from f show ?case
  proof (cases rule: retries_cases)
    case (empty_handed flag)
    with f have "crawl_pages ic is_duplicate_news crawler topic p all_news st =
        (Inr all_news, st1)"
      by (intro crawl_pages_stop [where news = "[]" and flag = flag]) auto
    with "1.prems" empty_handed same snap show ?thesis by auto
  next
    case (raised e)
    with f have "crawl_pages ic is_duplicate_news crawler topic p all_news st = (Inl e, st1)"
      by (intro crawl_pages_raise) simp
    with "1.prems" raised same snap show ?thesis by auto
  next
    case (batch items)
    let ?res = "process_news ic is_duplicate_news REQUIRED_KEYS items (seen_names st)"
    let ?news = "fst ?res"
    have d: "distinct (map trimmed_title ?news)"
      and i: "trimmed_title ` set ?news \<inter> trim ` seen_names st = {}"
      using process_news_distinct [of ic REQUIRED_KEYS items "seen_names st"] by simp_all
    have sn: "snd ?res = seen_names st \<union> title_of ` set ?news"
      by (rule process_news_seen)
    from f batch have f': "fetch_with_retries ic is_duplicate_news crawler p 3 st =
        (Inr (?news, False), st1)"
      by simp
    note step = crawl_pages_step [OF f' batch(1), of topic all_news]
    have "trim ` seen_names st = trimmed_title ` set all_news"
      using "1.prems"(4) by (auto simp: trimmed_title_def)
    with i have "trimmed_title ` set ?news \<inter> trimmed_title ` set all_news = {}" by simp
    with d "1.prems"(3) have d2: "distinct (map trimmed_title (all_news @ ?news))"
      by auto
    have s2: "seen_names st1 = title_of ` set (all_news @ ?news)"
      using batch(3) sn "1.prems"(4) by auto
    show ?thesis
    proof (cases "p > 20")
      case True
      with step "1.prems"(1) have "r = Inr (all_news @ ?news)" "st' = published topic ?news st1"
        by simp_all
      with "1.prems"(2) d2 s2 same snap show ?thesis by (simp add: published_def)
    next
      case False
      let ?st2 = "slept 2 (published topic ?news st1)"
      from False step "1.prems"(1) have rec:
        "crawl_pages ic is_duplicate_news crawler topic (p + 1) (all_news @ ?news) ?st2 = (r, st')"
        by simp
      have k2: "stream_records (trace ?st2) = all_news @ ?news"
        using "1.prems"(2) same by simp
      have n2: "seen_names ?st2 = title_of ` set (all_news @ ?news)"
        using s2 by (simp add: slept_def published_def)
      have p2: "snapshot_records (trace ?st2) = snapshot_records (trace st)"
        using snap by simp
      have st2: "?st2 = (st1\<lparr>trace := trace st1 @ [Publish ?news topic]\<rparr>)
                          \<lparr>trace := trace (st1\<lparr>trace := trace st1 @ [Publish ?news topic]\<rparr>) @ [Sleep 2]\<rparr>"
        by (simp add: slept_def published_def)
      from "1.hyps" [OF f' [symmetric] refl refl _ batch(1) refl, of r st'] False rec k2 d2 n2 p2
      show ?thesis unfolding st2 by simp
    qed
  qed
qed

text \<open>
  The pagination loop entered in the middle of a page: every state in which a session
  fetches leads to the end of that session, and the seen titles only grow.
\<close>

lemma crawl_pages_from:
  "crawl_pages ic idup crawler topic p all_news st = crawl_from ic idup crawler topic p 3 all_news st"
  by (subst crawl_pages.simps)
    (auto simp: crawl_from_def Let_def published_def slept_def split: prod.splits sum.splits)

lemma crawl_from_again:
  assumes "fst (fetch_and_process_page ic idup crawler p REQUIRED_KEYS st) = Inr ([], False)"
  shows "crawl_from ic idup crawler topic p (Suc n) all_news st =
         crawl_from ic idup crawler topic p n all_news (retried p st)"
  using assms by (simp add: crawl_from_def fetch_with_retries_Suc)

lemma crawl_from_batch:
  assumes "fetch_and_process_page ic idup crawler p REQUIRED_KEYS st = (Inr (news, False), st1)"
    and "news \<noteq> []"
  shows "crawl_from ic idup crawler topic p (Suc n) all_news st =
         (if p > 20 then (Inr (all_news @ news), published topic news st1)
          else crawl_pages ic idup crawler topic (p + 1) (all_news @ news)
                 (slept 2 (published topic news st1)))"
  using assms by (simp add: crawl_from_def fetch_with_retries_Suc)

lemma fetch_state_session:
  assumes "fetch_state ic idup crawler topic p n all_news st"
  shows "crawl_from ic idup crawler topic p n all_news st =
         crawl_pages ic idup crawler topic 1 [] init_session"
  using assms
proof (induction rule: fetch_state.induct)
  case first_fetch
  show ?case by (simp add: crawl_pages_from)
next
  case (next_attempt p n all_news st)
  from crawl_from_again [OF next_attempt.hyps(2), of topic "Suc n" all_news] next_attempt.IH
  show ?case by simp
next
  case (next_page p n all_news st news st1)
  from crawl_from_batch [OF next_page.hyps(2,3), of topic n all_news] next_page.hyps(4)
    next_page.IH
  show ?case by (simp add: crawl_pages_from)
qed

lemma retries_seen_mono:
  assumes "fetch_with_retries ic idup crawler p n st = (r, st')"
  shows "seen_names st \<subseteq> seen_names st'"
  using assms
  by (cases rule: retries_cases) (simp_all add: process_news_seen_mono)

lemma crawl_pages_seen_mono:
  assumes "crawl_pages ic idup crawler topic p all_news st = (r, st')"
  shows "seen_names st \<subseteq> seen_names st'"
  using assms
proof (induction ic idup crawler topic p all_news st arbitrary: r st' rule: crawl_pages.induct)
  case (1 ic idup crawler topic p all_news st)
  obtain r1 st1 where f: "fetch_with_retries ic idup crawler p 3 st = (r1, st1)"
    by (cases "fetch_with_retries ic idup crawler p 3 st")
  note mono = retries_seen_mono [OF f]
  show ?case
  proof (cases r1)
    case (Inl e)
    with f "1.prems" mono show ?thesis by (simp add: crawl_pages_raise)
  next
    case (Inr b)
    obtain news flag where b: "b = (news, flag)" by (cases b)
    show ?thesis
    proof (cases "flag \<or> news = []")
      case True
      from f Inr b have "fetch_with_retries ic idup crawler p 3 st = (Inr (news, flag), st1)"
        by simp
      from crawl_pages_stop [OF this True, of topic all_news] "1.prems" mono
      show ?thesis by simp
    next
      case False
      with f Inr b have f': "fetch_with_retries ic idup crawler p 3 st = (Inr (news, False), st1)"
        and ne: "news \<noteq> []" by simp_all
      note step = crawl_pages_step [OF f' ne, of topic all_news]
      show ?thesis
      proof (cases "p > 20")
        case True
        with step "1.prems" mono show ?thesis by auto
      next
        case p: False
        let ?st2 = "slept 2 (published topic news st1)"
        from p step "1.prems" have rec:
          "crawl_pages ic idup crawler topic (p + 1) (all_news @ news) ?st2 = (r, st')"
          by simp
        have st2: "?st2 = (st1\<lparr>trace := trace st1 @ [Publish news topic]\<rparr>)
                          \<lparr>trace := trace (st1\<lparr>trace := trace st1 @ [Publish news topic]\<rparr>) @ [Sleep 2]\<rparr>"
          by (simp add: slept_def published_def)
        from "1.IH" [OF f' [symmetric] refl refl _ ne refl, of r st'] p rec
        have "seen_names ?st2 \<subseteq> seen_names st'" unfolding st2 by simp
        with mono show ?thesis by simp
      qed
    qed
  qed
qed

lemma crawl_from_seen_mono:
  assumes "crawl_from ic idup crawler topic p n all_news st = (r, st')"
  shows "seen_names st \<subseteq> seen_names st'"
proof -
  obtain r1 st1 where f: "fetch_with_retries ic idup crawler p n st = (r1, st1)"
    by (cases "fetch_with_retries ic idup crawler p n st")
  note mono = retries_seen_mono [OF f]
  show ?thesis
  proof (cases r1)
    case (Inl e)
    with f assms mono show ?thesis by (simp add: crawl_from_def)
  next
    case (Inr b)
    obtain news flag where b: "b = (news, flag)" by (cases b)
    show ?thesis
    proof (cases "flag \<or> news = []")
      case True
      with f Inr b assms mono show ?thesis by (auto simp: crawl_from_def)
    next
      case False
      show ?thesis
      proof (cases "p > 20")
        case True
        with False f Inr b assms mono show ?thesis by (auto simp: crawl_from_def)
      next
        case p: False
        with False f Inr b assms have
          "crawl_pages ic idup crawler topic (p + 1) (all_news @ news)
             (slept 2 (published topic news st1)) = (r, st')"
          by (simp add: crawl_from_def)
        from crawl_pages_seen_mono [OF this] mono show ?thesis by simp
      qed
    qed
  qed
qed

text \<open>
  Where the records of the event stream come from: a retry loop that ends with news got
  them at one of the states in which the session fetches, from the batch at that state;
  so every record that the pagination loop sends is a valid raw record of the session.
\<close>

lemma retries_origin:
  assumes "fetch_state ic idup crawler topic p n all_news st"
    and "fetch_with_retries ic idup crawler p n st = (Inr (news, False), st1)"
    and "news \<noteq> []"
  shows "\<exists>st0 m. fetch_state ic idup crawler topic p (Suc m) all_news st0 \<and>
           fetch_and_process_page ic idup crawler p REQUIRED_KEYS st0 = (Inr (news, False), st1)"
  using assms
proof (induction n arbitrary: st)
  case 0
  then show ?case by simp
next
  case (Suc n)
  show ?case
  proof (cases "fst (fetch_and_process_page ic idup crawler p REQUIRED_KEYS st) = Inr ([], False)")
    case True
    with Suc.prems(2) have again:
      "fetch_with_retries ic idup crawler p n (retried p st) = (Inr (news, False), st1)"
      by (simp add: fetch_with_retries_Suc)
    with Suc.prems(3) obtain n' where n: "n = Suc n'" by (cases n) auto
    from Suc.prems(1) True n have "fetch_state ic idup crawler topic p n all_news (retried p st)"
      by (auto intro: fetch_state.next_attempt)
    from Suc.IH [OF this again Suc.prems(3)] show ?thesis .
  next
    case False
    with Suc.prems(2) have
      "fetch_and_process_page ic idup crawler p REQUIRED_KEYS st = (Inr (news, False), st1)"
      by (simp add: fetch_with_retries_Suc)
    with Suc.prems(1) show ?thesis by blast
  qed
qed

lemma crawl_pages_origin:
  assumes "crawl_pages ic idup crawler topic p all_news st = (r, st')"
    and "fetch_state ic idup crawler topic p 3 all_news st"
  shows "\<forall>x\<in>set (stream_records (trace st')). x \<in> set (stream_records (trace st)) \<or>
           (\<exists>item. raw_record ic idup crawler topic item \<and> valid_item ic REQUIRED_KEYS item \<and>
                   x = cleaned item)"
  using assms
proof (induction ic idup crawler topic p all_news st arbitrary: r st' rule: crawl_pages.induct)
  case (1 ic idup crawler topic p all_news st)
  let ?raw = "\<lambda>x. \<exists>item. raw_record ic idup crawler topic item \<and>
      valid_item ic REQUIRED_KEYS item \<and> x = cleaned item"
  obtain r1 st1 where f: "fetch_with_retries ic idup crawler p 3 st = (r1, st1)"
    by (cases "fetch_with_retries ic idup crawler p 3 st")
  from retries_stream [OF f] have same: "stream_records (trace st1) = stream_records (trace st)"
    by simp
  show ?case
  proof (cases r1)
    case (Inl e)
    with f "1.prems"(1) have "st' = st1" by (simp add: crawl_pages_raise)
    with same show ?thesis by simp
  next
    case (Inr b)
    obtain news flag where b: "b = (news, flag)" by (cases b)
    show ?thesis
    proof (cases "flag \<or> news = []")
      case True
      from f Inr b have "fetch_with_retries ic idup crawler p 3 st = (Inr (news, flag), st1)"
        by simp
      from crawl_pages_stop [OF this True, of topic all_news] "1.prems"(1) have "st' = st1"
        by simp
      with same show ?thesis by simp
    next
      case False
      with f Inr b have f': "fetch_with_retries ic idup crawler p 3 st = (Inr (news, False), st1)"
        and ne: "news \<noteq> []" by simp_all
      from retries_origin [OF "1.prems"(2) f' ne] obtain st0 m where
        fs: "fetch_state ic idup crawler topic p (Suc m) all_news st0"
        and page: "fetch_and_process_page ic idup crawler p REQUIRED_KEYS st0 =
                     (Inr (news, False), st1)"
        by blast
      from fetch_news_batch [OF page ne] obtain items where
        items: "batch_at crawler st0 = Some items"
        and news: "news = fst (process_news ic idup REQUIRED_KEYS items (seen_names st0))"
        by blast
      have raw: "\<forall>x\<in>set news. ?raw x"
      proof
        fix x assume "x \<in> set news"
        with news process_news_origin [of ic idup REQUIRED_KEYS items "seen_names st0"]
        obtain item where "item \<in> set items" "valid_item ic REQUIRED_KEYS item" "x = cleaned item"
          by blast
        with raw_record.fetched [OF fs items] show "?raw x" by blast
      qed
      note step = crawl_pages_step [OF f' ne, of topic all_news]
      show ?thesis
      proof (cases "p > 20")
        case True
        with step "1.prems"(1) have "st' = published topic news st1" by simp
        with same raw show ?thesis by auto
      next
        case p: False
        let ?st2 = "slept 2 (published topic news st1)"
        from p step "1.prems"(1) have rec:
          "crawl_pages ic idup crawler topic (p + 1) (all_news @ news) ?st2 = (r, st')"
          by simp
        have next_state: "fetch_state ic idup crawler topic (p + 1) 3 (all_news @ news) ?st2"
          using fs page ne p by (rule fetch_state.next_page)
        have st2: "?st2 = (st1\<lparr>trace := trace st1 @ [Publish news topic]\<rparr>)
                          \<lparr>trace := trace (st1\<lparr>trace := trace st1 @ [Publish news topic]\<rparr>) @ [Sleep 2]\<rparr>"
          by (simp add: slept_def published_def)
        from "1.IH" [OF f' [symmetric] refl refl _ ne refl, of r st'] p rec next_state
        have "\<forall>x\<in>set (stream_records (trace st')).
                x \<in> set (stream_records (trace ?st2)) \<or> ?raw x"
          unfolding st2 by simp
        with same raw show ?thesis by auto
      qed
    qed
  qed
qed

text \<open>
  A configured source runs the pagination loop from page 1 and writes the list it
  returns, unless empty, to the snapshot.
\<close>

lemma configured_source:
  assumes "configured env source_config"
  shows "crawl_scraper_source ic idup env crawler source_name source_config =
     (case crawl_pages ic idup crawler (kafka_topic_of env) 1 [] init_session of
        (Inl e, st) \<Rightarrow> (Inl e, st)
      | (Inr all_news, st) \<Rightarrow>
          if all_news \<noteq> []
          then (Inr all_news,
                st\<lparr>trace := trace st @ [Snapshot all_news (source_name @ ''_news.csv'')]\<rparr>)
          else (Inr all_news, st))"
  using assms
  by (auto simp: configured_def crawl_scraper_source_def split: option.splits)

lemma source_records:
  assumes "configured env source_config"
    and "crawl_pages ic idup crawler (kafka_topic_of env) 1 [] init_session = (r0, st0)"
    and "\<forall>x. r0 = Inr x \<longrightarrow> x = stream_records (trace st0)"
    and "snapshot_records (trace st0) = []"
    and "crawl_scraper_source ic idup env crawler source_name source_config = (r, st')"
  shows "stream_records (trace st') = stream_records (trace st0) \<and>
         snapshot_records (trace st') =
           (case r of Inl e \<Rightarrow> [] | Inr all_news \<Rightarrow> stream_records (trace st0))"
proof (cases r0)
  case (Inl e)
  with configured_source [OF assms(1), of ic idup crawler source_name] assms(2,5)
  have "r = Inl e" "st' = st0" by simp_all
  with assms(4) show ?thesis by simp
next
  case (Inr all_news)
  with assms(3) have all: "all_news = stream_records (trace st0)" by simp
  show ?thesis
  proof (cases "all_news = []")
    case True
    with Inr configured_source [OF assms(1), of ic idup crawler source_name] assms(2,5)
    have "r = Inr all_news" "st' = st0" by simp_all
    with all True assms(4) show ?thesis by simp
  next
    case False
    with Inr configured_source [OF assms(1), of ic idup crawler source_name] assms(2,5)
    have "r = Inr all_news"
      "st' = st0\<lparr>trace := trace st0 @ [Snapshot all_news (source_name @ ''_news.csv'')]\<rparr>"
      by simp_all
    with all assms(4) show ?thesis by simp
  qed
qed

lemma count_distinct:
  "distinct (map f xs) \<Longrightarrow> length (filter (\<lambda>x. f x = t) xs) = (if t \<in> f ` set xs then 1 else 0)"
  by (induction xs) auto

lemma site_configured: "configured (getenv demo_world) site_config"
  by (simp add: configured_def site_config_def demo_world_def truthy_def)

lemma site_topic: "kafka_topic_of (getenv demo_world) = ''news-events''"
  by (simp add: kafka_topic_of_def demo_world_def dict_get_def)

lemma incomplete_batch:
  "batch_at incomplete_crawler init_session =
     Some [JDict False [''title'' \<mapsto> ''T''], JDict False [''title'' \<mapsto> ''T'']]"
  by (simp add: batch_at_def incomplete_crawler_def init_session_def)

lemma incomplete_fetch:
  assumes "even (calls st)"
  shows "fetch_and_process_page is_complete_news is_duplicate_news incomplete_crawler p
           REQUIRED_KEYS st = (Inr ([], False), extracted p st)"
  using assms
  by (simp add: fetch_eq after_probe_def incomplete_crawler_def process_news_Cons
      process_news_Nil accepted_def extracted_def is_complete_news_def REQUIRED_KEYS_def
      truthy_def)

lemma incomplete_session:
  "crawl_pages is_complete_news is_duplicate_news incomplete_crawler ''news-events'' 1 []
     init_session = (Inr [], (retried 1 ^^ 3) init_session)"
proof -
  have e: "even (calls ((retried 1 ^^ i) init_session))" for i
    by (simp add: calls_retried_pow init_session_def)
  have "fetch_with_retries is_complete_news is_duplicate_news incomplete_crawler 1 3
          init_session =
      fetch_with_retries is_complete_news is_duplicate_news incomplete_crawler 1 (3 - 3)
        ((retried 1 ^^ 3) init_session)"
    by (rule retries_forward) (simp_all add: incomplete_fetch e)
  then show ?thesis
    by (intro crawl_pages_stop [where news = "[]" and flag = False]) simp_all
qed

text \<open>
  C2, as the claim states it, fails: a title carried by two raw records of a fetched page
  that both fail the completeness check is forwarded not once but never, neither to the
  event stream nor to the snapshot.
\<close>

theorem dedup_counterexample:
  "batch_at incomplete_crawler init_session =
     Some [JDict False [''title'' \<mapsto> ''T''], JDict False [''title'' \<mapsto> ''T'']] \<and>
   sink_records (trace (snd (crawl_scraper_source is_complete_news is_duplicate_news
     (getenv demo_world) incomplete_crawler ''site'' site_config))) = [] \<and>
   forwarded ''T'' (stream_records (trace (snd (crawl_scraper_source is_complete_news
     is_duplicate_news (getenv demo_world) incomplete_crawler ''site'' site_config)))) = 0 \<and>
   forwarded ''T'' (snapshot_records (trace (snd (crawl_scraper_source is_complete_news
     is_duplicate_news (getenv demo_world) incomplete_crawler ''site'' site_config)))) = 0"
proof -
  have "crawl_scraper_source is_complete_news is_duplicate_news (getenv demo_world)
      incomplete_crawler ''site'' site_config = (Inr [], (retried 1 ^^ 3) init_session)"
    by (simp add: configured_source [OF site_configured] site_topic incomplete_session)
  then have "trace (snd (crawl_scraper_source is_complete_news is_duplicate_news
      (getenv demo_world) incomplete_crawler ''site'' site_config)) =
      concat (replicate 3 [Probe 1, Extract 1, Sleep 5])"
    by (simp add: trace_retried_pow init_session_def)
  then have "sink_records (trace (snd (crawl_scraper_source is_complete_news is_duplicate_news
        (getenv demo_world) incomplete_crawler ''site'' site_config))) = []"
    and "stream_records (trace (snd (crawl_scraper_source is_complete_news is_duplicate_news
        (getenv demo_world) incomplete_crawler ''site'' site_config))) = []"
    and "snapshot_records (trace (snd (crawl_scraper_source is_complete_news is_duplicate_news
        (getenv demo_world) incomplete_crawler ''site'' site_config))) = []"
    by (simp_all add: numeral_3_eq_3)
  with incomplete_batch show ?thesis by (simp add: forwarded_def)
qed

text \<open>
  C2, amended. In the session of a configured paginated source, titles being compared as
  the deduplication compares them (trimmed): no two records sent to the event stream
  share a title. Whenever the session fetches a batch with a raw record that passes
  validation (no error flag, complete, title not empty), the event stream receives
  exactly one record with that title over the whole session, however many raw records
  carry it, across pages or within one batch; and a title that no valid raw record of the
  session carries is not forwarded at all. The snapshot, written when the session
  returns, holds the records of the event stream and nothing else, so each of these
  titles is in it once if the session returns, and not at all if the session raises.
  Within a batch the accepted records have distinct titles, and the seen titles after
  the batch are those before it and those of the accepted records: a title is added when
  its record is accepted, before the rest of the batch is looked at.
\<close>

theorem dedup_exactly_once:
  assumes "configured env source_config"
    and "crawl_scraper_source ic is_duplicate_news env crawler source_name source_config =
           (r, st')"
  shows "distinct (map trimmed_title (stream_records (trace st'))) \<and>
         snapshot_records (trace st') =
           (case r of Inl e \<Rightarrow> [] | Inr all_news \<Rightarrow> stream_records (trace st')) \<and>
         (\<forall>item. raw_record ic is_duplicate_news crawler (kafka_topic_of env) item \<and>
                 valid_item ic REQUIRED_KEYS item \<longrightarrow>
            forwarded (title_of (cleaned item)) (stream_records (trace st')) = 1 \<and>
            forwarded (title_of (cleaned item)) (snapshot_records (trace st')) =
              (case r of Inl e \<Rightarrow> 0 | Inr all_news \<Rightarrow> 1)) \<and>
         (\<forall>T. (\<forall>item. raw_record ic is_duplicate_news crawler (kafka_topic_of env) item \<and>
                      valid_item ic REQUIRED_KEYS item \<longrightarrow>
                      trimmed_title (cleaned item) \<noteq> trim T) \<longrightarrow>
            forwarded T (stream_records (trace st')) = 0 \<and>
            forwarded T (snapshot_records (trace st')) = 0) \<and>
         (\<forall>items seen.
            distinct (map trimmed_title
              (fst (process_news ic is_duplicate_news REQUIRED_KEYS items seen))) \<and>
            snd (process_news ic is_duplicate_news REQUIRED_KEYS items seen) =
              seen \<union> title_of `
                set (fst (process_news ic is_duplicate_news REQUIRED_KEYS items seen)))"
proof -
  let ?topic = "kafka_topic_of env"
  let ?S = "stream_records (trace st')"
  let ?P = "snapshot_records (trace st')"
  obtain r0 st0 where run:
    "crawl_pages ic is_duplicate_news crawler ?topic 1 [] init_session = (r0, st0)"
    by (cases "crawl_pages ic is_duplicate_news crawler ?topic 1 [] init_session")
  from crawl_pages_dedup [OF run]
  have d0: "distinct (map trimmed_title (stream_records (trace st0)))"
    and sn: "seen_names st0 = title_of ` set (stream_records (trace st0))"
    and res: "\<forall>x. r0 = Inr x \<longrightarrow> x = stream_records (trace st0)"
    and snap0: "snapshot_records (trace st0) = []"
    by (simp_all add: init_session_def)
  from source_records [OF assms(1) run res snap0 assms(2)]
  have stream: "?S = stream_records (trace st0)"
    and snap0': "?P = (case r of Inl e \<Rightarrow> [] | Inr all_news \<Rightarrow> stream_records (trace st0))"
    by simp_all
  from snap0' stream have snap: "?P = (case r of Inl e \<Rightarrow> [] | Inr all_news \<Rightarrow> ?S)"
    by (cases r) simp_all
  from d0 stream have d: "distinct (map trimmed_title ?S)" by simp
  have in_snapshot: "forwarded T ?P = (case r of Inl e \<Rightarrow> 0 | Inr all_news \<Rightarrow> forwarded T ?S)"
    for T
    using snap by (cases r) (simp_all add: forwarded_def)
  have once: "forwarded (title_of (cleaned item)) ?S = 1"
    if raw: "raw_record ic is_duplicate_news crawler ?topic item"
      and valid: "valid_item ic REQUIRED_KEYS item" for item
  proof -
    from raw obtain p n all_news st items where
      fs: "fetch_state ic is_duplicate_news crawler ?topic p (Suc n) all_news st"
      and items: "batch_at crawler st = Some items" and item: "item \<in> set items"
      by (cases rule: raw_record.cases) blast
    let ?res = "process_news ic is_duplicate_news REQUIRED_KEYS items (seen_names st)"
    from fetch_state_session [OF fs] run
    have from_here:
      "crawl_from ic is_duplicate_news crawler ?topic p (Suc n) all_news st = (r0, st0)"
      by simp
    note f = fetch_batch_at [OF items, of ic is_duplicate_news p REQUIRED_KEYS]
    have T: "trimmed_title (cleaned item) \<in> trim ` snd ?res"
      using item valid by (rule process_news_valid_seen)
    have "snd ?res \<subseteq> seen_names st0"
    proof (cases "fst ?res = []")
      case True
      then have "snd ?res = seen_names st"
        using process_news_seen [of ic is_duplicate_news REQUIRED_KEYS items "seen_names st"]
        by simp
      with crawl_from_seen_mono [OF from_here] show ?thesis by simp
    next
      case False
      let ?st1 = "(extracted p st)\<lparr>seen_names := snd ?res\<rparr>"
      from crawl_from_batch [OF f False, of ?topic n all_news] from_here
      have step: "(if p > 20 then (Inr (all_news @ fst ?res), published ?topic (fst ?res) ?st1)
            else crawl_pages ic is_duplicate_news crawler ?topic (p + 1) (all_news @ fst ?res)
                   (slept 2 (published ?topic (fst ?res) ?st1))) = (r0, st0)"
        by simp
      show ?thesis
      proof (cases "p > 20")
        case True
        with step have "st0 = published ?topic (fst ?res) ?st1" by simp
        then show ?thesis by simp
      next
        case False
        with step have "crawl_pages ic is_duplicate_news crawler ?topic (p + 1)
            (all_news @ fst ?res) (slept 2 (published ?topic (fst ?res) ?st1)) = (r0, st0)"
          by simp
        from crawl_pages_seen_mono [OF this] show ?thesis by simp
      qed
    qed
    with T have "trimmed_title (cleaned item) \<in> trim ` seen_names st0" by blast
    with sn stream have "trimmed_title (cleaned item) \<in> trimmed_title ` set ?S"
      by (auto simp: trimmed_title_def)
    with count_distinct [OF d, of "trimmed_title (cleaned item)"] show ?thesis
      by (simp add: forwarded_def trimmed_title_def)
  qed
  have never: "forwarded T ?S = 0"
    if none: "\<forall>item. raw_record ic is_duplicate_news crawler ?topic item \<and>
                valid_item ic REQUIRED_KEYS item \<longrightarrow> trimmed_title (cleaned item) \<noteq> trim T"
    for T
  proof -
    from crawl_pages_origin [OF run fetch_state.first_fetch] stream
    have origin: "\<forall>x\<in>set ?S. \<exists>item. raw_record ic is_duplicate_news crawler ?topic item \<and>
            valid_item ic REQUIRED_KEYS item \<and> x = cleaned item"
      by (simp add: init_session_def)
    have "\<forall>x\<in>set ?S. trimmed_title x \<noteq> trim T"
    proof
      fix x assume "x \<in> set ?S"
      with origin obtain item where "raw_record ic is_duplicate_news crawler ?topic item"
        and "valid_item ic REQUIRED_KEYS item" and "x = cleaned item" by blast
      with none show "trimmed_title x \<noteq> trim T" by simp
    qed
    then have "filter (\<lambda>n. trimmed_title n = trim T) ?S = []"
      by (simp add: filter_empty_conv)
    then show ?thesis by (simp add: forwarded_def)
  qed
  have batch: "distinct (map trimmed_title
        (fst (process_news ic is_duplicate_news REQUIRED_KEYS items seen))) \<and>
      snd (process_news ic is_duplicate_news REQUIRED_KEYS items seen) =
        seen \<union> title_of ` set (fst (process_news ic is_duplicate_news REQUIRED_KEYS items seen))"
    for items seen
    using process_news_distinct [of ic REQUIRED_KEYS items seen]
      process_news_seen [of ic is_duplicate_news REQUIRED_KEYS items seen]
    by blast
  have c3: "\<forall>item. raw_record ic is_duplicate_news crawler ?topic item \<and>
                 valid_item ic REQUIRED_KEYS item \<longrightarrow>
            forwarded (title_of (cleaned item)) ?S = 1 \<and>
            forwarded (title_of (cleaned item)) ?P = (case r of Inl e \<Rightarrow> 0 | Inr all_news \<Rightarrow> 1)"
  proof (intro allI impI)
    fix item
    assume "raw_record ic is_duplicate_news crawler ?topic item \<and>
            valid_item ic REQUIRED_KEYS item"
    then have "forwarded (title_of (cleaned item)) ?S = 1" using once by blast
    with in_snapshot [of "title_of (cleaned item)"]
    show "forwarded (title_of (cleaned item)) ?S = 1 \<and>
          forwarded (title_of (cleaned item)) ?P = (case r of Inl e \<Rightarrow> 0 | Inr all_news \<Rightarrow> 1)"
      by (cases r) simp_all
  qed
  have c4: "\<forall>T. (\<forall>item. raw_record ic is_duplicate_news crawler ?topic item \<and>
                      valid_item ic REQUIRED_KEYS item \<longrightarrow>
                      trimmed_title (cleaned item) \<noteq> trim T) \<longrightarrow>
            forwarded T ?S = 0 \<and> forwarded T ?P = 0"
  proof (intro allI impI)
    fix T
    assume "\<forall>item. raw_record ic is_duplicate_news crawler ?topic item \<and>
              valid_item ic REQUIRED_KEYS item \<longrightarrow> trimmed_title (cleaned item) \<noteq> trim T"
    then have "forwarded T ?S = 0" by (rule never)
    with in_snapshot [of T] show "forwarded T ?S = 0 \<and> forwarded T ?P = 0"
      by (cases r) simp_all
  qed
  from d snap c3 c4 batch show ?thesis by blast
qed

lemma padded_batch:
  "batch_at padded_crawler init_session =
     Some [JDict False (padded (article 0)), JDict False (article 0),
           JDict False (article (Suc 0))]"
  by (simp add: batch_at_def padded_crawler_def init_session_def)

lemma padded_batches:
  assumes "batch_at padded_crawler st = Some items"
  shows "items = [JDict False (padded (article 0)), JDict False (article 0),
                  JDict False (article (Suc 0))]"
  using assms by (auto simp: batch_at_def padded_crawler_def split: if_splits)

lemma padded_title: "title_of (padded (article k)) = '' '' @ replicate (Suc k) CHR ''a'' @ '' ''"
  by (simp add: padded_def title_of_def dict_get_def article_def)

lemma padded_cleaned: "cleaned (JDict False (padded (article k))) = padded (article k)"
  by (simp add: padded_def article_def)

lemma padded_valid:
  "valid_item is_complete_news REQUIRED_KEYS (JDict False (padded (article k)))"
  by (simp add: valid_item_def padded_def article_def is_complete_news_def REQUIRED_KEYS_def
      truthy_def dict_get_def title_of_def)

lemma padded_processed:
  "process_news is_complete_news is_duplicate_news REQUIRED_KEYS
     [JDict False (padded (article 0)), JDict False (article 0), JDict False (article (Suc 0))]
     {} =
   ([padded (article 0), article (Suc 0)], {'' a '', ''aa''})"
  by (simp add: process_news_Cons process_news_Nil accepted_iff article_valid padded_valid
      article_cleaned padded_cleaned article_title padded_title is_duplicate_news_def
      trim_def whitespace_def insert_commute del: cleaned.simps)

lemma padded_session:
  "crawl_pages is_complete_news is_duplicate_news padded_crawler ''news-events'' 1 []
     init_session =
   (Inr [padded (article 0), article (Suc 0)],
    probed 2 (slept 2 (published ''news-events'' [padded (article 0), article (Suc 0)]
      ((extracted 1 init_session)\<lparr>seen_names := {'' a '', ''aa''}\<rparr>))))"
proof -
  let ?st1 = "(extracted 1 init_session)\<lparr>seen_names := {'' a '', ''aa''}\<rparr>"
  let ?st2 = "slept 2 (published ''news-events'' [padded (article 0), article (Suc 0)] ?st1)"
  have "fetch_and_process_page is_complete_news is_duplicate_news padded_crawler 1
          REQUIRED_KEYS init_session =
        (Inr ([padded (article 0), article (Suc 0)], False), ?st1)"
    using fetch_batch_at [OF padded_batch, of is_complete_news is_duplicate_news 1 REQUIRED_KEYS]
    by (simp add: padded_processed init_session_def)
  then have r1: "fetch_with_retries is_complete_news is_duplicate_news padded_crawler 1 3
      init_session = (Inr ([padded (article 0), article (Suc 0)], False), ?st1)"
    by (simp add: eval_nat_numeral fetch_with_retries_Suc)
  have "fetch_and_process_page is_complete_news is_duplicate_news padded_crawler 2
          REQUIRED_KEYS ?st2 = (Inr ([], True), probed 2 ?st2)"
    by (simp add: fetch_eq padded_crawler_def slept_def published_def extracted_def
        init_session_def)
  then have r2: "fetch_with_retries is_complete_news is_duplicate_news padded_crawler 2 3
      ?st2 = (Inr ([], True), probed 2 ?st2)"
    by (simp add: eval_nat_numeral fetch_with_retries_Suc)
  from crawl_pages_step [OF r1, of "''news-events''" "[]"]
    crawl_pages_stop [OF r2, of "''news-events''" "[padded (article 0), article (Suc 0)]"]
  show ?thesis by simp
qed

lemma padded_source:
  "crawl_scraper_source is_complete_news is_duplicate_news (getenv demo_world) padded_crawler
     ''site'' site_config =
   (Inr [padded (article 0), article (Suc 0)],
    (probed 2 (slept 2 (published ''news-events'' [padded (article 0), article (Suc 0)]
      ((extracted 1 init_session)\<lparr>seen_names := {'' a '', ''aa''}\<rparr>))))
    \<lparr>trace := trace (probed 2 (slept 2 (published ''news-events''
        [padded (article 0), article (Suc 0)]
        ((extracted 1 init_session)\<lparr>seen_names := {'' a '', ''aa''}\<rparr>)))) @
      [Snapshot [padded (article 0), article (Suc 0)] ''site_news.csv'']\<rparr>)"
  by (simp add: configured_source [OF site_configured] site_topic padded_session)

theorem dedup_exactly_once_witness:
  "configured (getenv demo_world) site_config \<and>
   stream_records (trace (snd (crawl_scraper_source is_complete_news is_duplicate_news
     (getenv demo_world) padded_crawler ''site'' site_config))) =
     [padded (article 0), article (Suc 0)] \<and>
   snapshot_records (trace (snd (crawl_scraper_source is_complete_news is_duplicate_news
     (getenv demo_world) padded_crawler ''site'' site_config))) =
     [padded (article 0), article (Suc 0)] \<and>
   forwarded ''a'' (stream_records (trace (snd (crawl_scraper_source is_complete_news
     is_duplicate_news (getenv demo_world) padded_crawler ''site'' site_config)))) = 1 \<and>
   forwarded ''a'' (snapshot_records (trace (snd (crawl_scraper_source is_complete_news
     is_duplicate_news (getenv demo_world) padded_crawler ''site'' site_config)))) = 1 \<and>
   forwarded ''b'' (stream_records (trace (snd (crawl_scraper_source is_complete_news
     is_duplicate_news (getenv demo_world) padded_crawler ''site'' site_config)))) = 0 \<and>
   forwarded ''b'' (snapshot_records (trace (snd (crawl_scraper_source is_complete_news
     is_duplicate_news (getenv demo_world) padded_crawler ''site'' site_config)))) = 0"
proof -
  let ?run = "crawl_scraper_source is_complete_news is_duplicate_news (getenv demo_world)
     padded_crawler ''site'' site_config"
  let ?S = "stream_records (trace (snd ?run))"
  let ?P = "snapshot_records (trace (snd ?run))"
  have run: "?run = (fst ?run, snd ?run)" by simp
  have returned: "fst ?run = Inr [padded (article 0), article (Suc 0)]"
    by (simp add: padded_source)
  note checked = dedup_exactly_once [OF site_configured run]
  have state: "fetch_state is_complete_news is_duplicate_news padded_crawler
      (kafka_topic_of (getenv demo_world)) 1 (Suc 2) [] init_session"
    using fetch_state.first_fetch [of is_complete_news is_duplicate_news padded_crawler
        "kafka_topic_of (getenv demo_world)"]
    by (simp add: eval_nat_numeral)
  have raw: "raw_record is_complete_news is_duplicate_news padded_crawler
      (kafka_topic_of (getenv demo_world)) (JDict False (article 0))"
    by (rule raw_record.fetched [OF state padded_batch]) simp
  from checked raw article_valid [of 0] returned
  have a: "forwarded (title_of (cleaned (JDict False (article 0)))) ?S = 1 \<and>
           forwarded (title_of (cleaned (JDict False (article 0)))) ?P = 1"
    by (simp del: cleaned.simps)
  have none: "\<forall>item. raw_record is_complete_news is_duplicate_news padded_crawler
        (kafka_topic_of (getenv demo_world)) item \<and>
      valid_item is_complete_news REQUIRED_KEYS item \<longrightarrow>
      trimmed_title (cleaned item) \<noteq> trim ''b''"
  proof (intro allI impI)
    fix item
    assume "raw_record is_complete_news is_duplicate_news padded_crawler
        (kafka_topic_of (getenv demo_world)) item \<and>
      valid_item is_complete_news REQUIRED_KEYS item"
    then obtain st items where "batch_at padded_crawler st = Some items" "item \<in> set items"
      by (auto elim: raw_record.cases)
    with padded_batches have "item \<in> {JDict False (padded (article 0)),
        JDict False (article 0), JDict False (article (Suc 0))}"
      by fastforce
    then show "trimmed_title (cleaned item) \<noteq> trim ''b''"
      by (auto simp: trimmed_title_def article_cleaned padded_cleaned article_title
          padded_title trim_def whitespace_def simp del: cleaned.simps)
  qed
  from checked none have b: "forwarded ''b'' ?S = 0 \<and> forwarded ''b'' ?P = 0"
    by blast
  have s: "?S = [padded (article 0), article (Suc 0)]"
    unfolding padded_source
    by (simp add: probed_def slept_def published_def extracted_def init_session_def)
  have p: "?P = [padded (article 0), article (Suc 0)]"
    unfolding padded_source
    by (simp add: probed_def slept_def published_def extracted_def init_session_def)
  from a have a': "forwarded ''a'' ?S = 1 \<and> forwarded ''a'' ?P = 1"
    by (simp add: article_cleaned article_title del: cleaned.simps)
  from site_configured s p a' b show ?thesis by blast
qed

end
